theory Spec2Isabelle
  imports Main "HOL-Library.Multiset" "HOL-Library.Sublist"
begin

section \<open>Characters and the string primitives of the script\<close>

text \<open>
  The script \<^verbatim>\<open>customize_icon_order.py\<close> works on Python \<^verbatim>\<open>str\<close> values, which are
  sequences of code points. A character is modelled by \<^typ>\<open>char\<close>, read as a code point
  in the range 0..255; the character classes below are the ones of Python's \<^verbatim>\<open>str\<close>
  methods and of the \<^verbatim>\<open>re\<close> module restricted to that range. Code points above 255 are
  outside the model.
\<close>

definition LF :: char where
  "LF = CHR 0x0A"

definition CR :: char where
  "CR = CHR 0x0D"

definition isspace :: "char \<Rightarrow> bool" where
  \<comment> \<open>\<^verbatim>\<open>str.isspace\<close>, which also is what \<^verbatim>\<open>strip\<close>, \<^verbatim>\<open>lstrip\<close> and \<^verbatim>\<open>split()\<close> use.\<close>
  "isspace c =
     (let n = (of_char c :: nat)
      in (9 \<le> n \<and> n \<le> 13) \<or> (28 \<le> n \<and> n \<le> 32) \<or> n = 133 \<or> n = 160)"

definition isalnum :: "char \<Rightarrow> bool" where
  \<comment> \<open>\<^verbatim>\<open>str.isalnum\<close>: letters, decimal digits, and the digit and numeric characters.\<close>
  "isalnum c =
     (let n = (of_char c :: nat)
      in (48 \<le> n \<and> n \<le> 57) \<or> (65 \<le> n \<and> n \<le> 90) \<or> (97 \<le> n \<and> n \<le> 122)
         \<or> n = 170 \<or> n = 178 \<or> n = 179 \<or> n = 181 \<or> n = 185 \<or> n = 186
         \<or> (188 \<le> n \<and> n \<le> 190) \<or> (192 \<le> n \<and> n \<le> 214)
         \<or> (216 \<le> n \<and> n \<le> 246) \<or> (248 \<le> n \<and> n \<le> 255))"

definition isword :: "char \<Rightarrow> bool" where
  \<comment> \<open>The class \<^verbatim>\<open>\w\<close> of a \<^verbatim>\<open>str\<close> pattern.\<close>
  "isword c = (isalnum c \<or> c = CHR ''_'')"

definition is_upper :: "char \<Rightarrow> bool" where
  \<comment> \<open>The characters with a lower-case partner: \<^verbatim>\<open>A\<close>..\<^verbatim>\<open>Z\<close> and the accented capitals
      192..222 (but not the multiplication sign 215).\<close>
  "is_upper c =
     (let n = (of_char c :: nat)
      in (65 \<le> n \<and> n \<le> 90) \<or> (192 \<le> n \<and> n \<le> 222 \<and> n \<noteq> 215))"

definition tolower :: "char \<Rightarrow> char" where
  \<comment> \<open>The simple lower-case mapping that \<^verbatim>\<open>re.IGNORECASE\<close> applies to a character: the
      partner of a capital is 32 code points above it.\<close>
  "tolower c = (if is_upper c then char_of ((of_char c :: nat) + 32) else c)"

definition lstrip :: "string \<Rightarrow> string" where
  \<comment> \<open>\<^verbatim>\<open>s.lstrip()\<close>\<close>
  "lstrip s = dropWhile isspace s"

definition rstrip :: "string \<Rightarrow> string" where
  \<comment> \<open>\<^verbatim>\<open>s.rstrip()\<close>\<close>
  "rstrip s = rev (dropWhile isspace (rev s))"

definition strip :: "string \<Rightarrow> string" where
  \<comment> \<open>\<^verbatim>\<open>s.strip()\<close>\<close>
  "strip s = rstrip (lstrip s)"

definition lstrip_chars :: "string \<Rightarrow> string \<Rightarrow> string" where
  \<comment> \<open>\<^verbatim>\<open>s.lstrip(chars)\<close>\<close>
  "lstrip_chars chars s = dropWhile (\<lambda>c. c \<in> set chars) s"

definition split_sep_max1 :: "char \<Rightarrow> string \<Rightarrow> string list" where
  \<comment> \<open>\<^verbatim>\<open>s.split(sep, 1)\<close> for a one-character separator: at most one cut, at the first
      occurrence.\<close>
  "split_sep_max1 sep s =
     (case dropWhile (\<lambda>c. c \<noteq> sep) s of
        [] \<Rightarrow> [s]
      | _ # rest \<Rightarrow> [takeWhile (\<lambda>c. c \<noteq> sep) s, rest])"

fun split_sep :: "char \<Rightarrow> string \<Rightarrow> string list" where
  \<comment> \<open>\<^verbatim>\<open>s.split(sep)\<close> for a one-character separator: every occurrence cuts, empty pieces
      are kept, and the result always has at least one piece.\<close>
  "split_sep sep [] = [[]]"
| "split_sep sep (c # cs) =
     (if c = sep then [] # split_sep sep cs
      else (case split_sep sep cs of
              [] \<Rightarrow> [[c]]
            | p # ps \<Rightarrow> (c # p) # ps))"

function split_ws :: "string \<Rightarrow> string list" where
  \<comment> \<open>\<^verbatim>\<open>s.split()\<close>: the maximal runs of characters that are not whitespace.\<close>
  "split_ws s =
     (let s1 = dropWhile isspace s
      in if s1 = [] then []
         else takeWhile (\<lambda>c. \<not> isspace c) s1 # split_ws (dropWhile (\<lambda>c. \<not> isspace c) s1))"
  by pat_completeness auto
termination
proof (relation "measure length")
  show "wf (measure length)" by simp
next
  fix s s1 :: string
  assume s1: "s1 = dropWhile isspace s" and ne: "s1 \<noteq> []"
  have "\<not> isspace (hd s1)"
    using s1 ne hd_dropWhile by metis
  then have "dropWhile (\<lambda>c. \<not> isspace c) s1 = dropWhile (\<lambda>c. \<not> isspace c) (tl s1)"
    using ne by (cases s1) simp_all
  moreover have "length (dropWhile (\<lambda>c. \<not> isspace c) (tl s1)) \<le> length (tl s1)"
    by (rule length_dropWhile_le)
  ultimately have "length (dropWhile (\<lambda>c. \<not> isspace c) s1) \<le> length (tl s1)"
    by simp
  also have "\<dots> < length s1"
    using ne by (cases s1) simp_all
  also have "\<dots> \<le> length s"
    using s1 by (simp add: length_dropWhile_le)
  finally show "(dropWhile (\<lambda>c. \<not> isspace c) s1, s) \<in> measure length"
    by simp
qed

declare split_ws.simps [simp del]

definition split_ws_max1 :: "string \<Rightarrow> string list" where
  \<comment> \<open>\<^verbatim>\<open>s.split(None, 1)\<close>: leading whitespace is skipped, the first word is cut off, the
      whitespace after it is skipped, and what is left, if anything, is the second part
      (its trailing whitespace kept).\<close>
  "split_ws_max1 s =
     (let s1 = dropWhile isspace s
      in if s1 = [] then []
         else (let w = takeWhile (\<lambda>c. \<not> isspace c) s1;
                   r = dropWhile isspace (dropWhile (\<lambda>c. \<not> isspace c) s1)
               in if r = [] then [w] else [w, r]))"

fun str_join :: "string \<Rightarrow> string list \<Rightarrow> string" where
  \<comment> \<open>\<^verbatim>\<open>sep.join(items)\<close>\<close>
  "str_join sep [] = []"
| "str_join sep [x] = x"
| "str_join sep (x # y # ys) = x @ sep @ str_join sep (y # ys)"

subsection \<open>Integers and their decimal text\<close>

definition isdigit :: "char \<Rightarrow> bool" where
  \<comment> \<open>The decimal digits that \<^verbatim>\<open>int()\<close> accepts (code points below 256).\<close>
  "isdigit c = (let n = (of_char c :: nat) in 48 \<le> n \<and> n \<le> 57)"

definition digit_val :: "char \<Rightarrow> int" where
  "digit_val c = int (of_char c) - 48"

fun digits_ok :: "string \<Rightarrow> bool" where
  \<comment> \<open>The digit part of an integer literal: digits, with single underscores allowed
      between two digits only.\<close>
  "digits_ok [] = False"
| "digits_ok [c] = isdigit c"
| "digits_ok (c # d # ds) =
     (isdigit c \<and> (if d = CHR ''_'' then digits_ok ds else digits_ok (d # ds)))"

definition digits_value :: "string \<Rightarrow> int" where
  "digits_value ds = foldl (\<lambda>n c. 10 * n + digit_val c) 0 (filter (\<lambda>c. c \<noteq> CHR ''_'') ds)"

definition int_space :: "char \<Rightarrow> bool" where
  \<comment> \<open>The whitespace that \<^verbatim>\<open>int()\<close> skips around the literal.\<close>
  "int_space c =
     (let n = (of_char c :: nat) in (9 \<le> n \<and> n \<le> 13) \<or> n = 32 \<or> n = 133 \<or> n = 160)"

definition max_str_digits :: nat where
  \<comment> \<open>The interpreter's limit on the number of digits of a literal that \<^verbatim>\<open>int()\<close>
      converts, \<^verbatim>\<open>sys.int_info.default_max_str_digits\<close>; the script does not change it.\<close>
  "max_str_digits = 4300"

definition digit_count :: "string \<Rightarrow> nat" where
  \<comment> \<open>What the limit counts: the digits of the literal, not its underscores (nor the sign
      or the whitespace around it, which are cut off before).\<close>
  "digit_count ds = length (filter (\<lambda>c. c \<noteq> CHR ''_'') ds)"

definition unsigned_int :: "string \<Rightarrow> int option" where
  \<comment> \<open>The literal after its sign: a malformed one and one with more digits than the limit
      both raise \<^verbatim>\<open>ValueError\<close>.\<close>
  "unsigned_int ds =
     (if digits_ok ds \<and> digit_count ds \<le> max_str_digits then Some (digits_value ds) else None)"

definition py_int :: "string \<Rightarrow> int option" where
  \<comment> \<open>\<^verbatim>\<open>int(x)\<close> for a string, base 10; \<open>None\<close> stands for \<^verbatim>\<open>ValueError\<close>. Whitespace
      around the literal is skipped, then comes an optional sign, then the digits; a literal
      of more than \<open>max_str_digits\<close> digits is refused whatever its value.\<close>
  "py_int x =
     (case rev (dropWhile int_space (rev (dropWhile int_space x))) of
        [] \<Rightarrow> None
      | c # cs \<Rightarrow>
          if c = CHR ''+'' then unsigned_int cs
          else if c = CHR ''-'' then map_option uminus (unsigned_int cs)
          else unsigned_int (c # cs))"

definition digit_char :: "nat \<Rightarrow> char" where
  "digit_char d = char_of (48 + d)"

fun str_nat :: "nat \<Rightarrow> string" where
  \<comment> \<open>\<^verbatim>\<open>str(n)\<close> for a natural number, as the f-string of the listing renders \<^verbatim>\<open>i\<close>, a
      position in a list (which has far fewer digits than the limit that \<^verbatim>\<open>str\<close> shares
      with \<^verbatim>\<open>int\<close>).\<close>
  "str_nat n = (if n < 10 then [digit_char n] else str_nat (n div 10) @ [digit_char (n mod 10)])"

declare str_nat.simps [simp del]

definition decimal :: "string \<Rightarrow> bool" where
  \<comment> \<open>A non-empty run of the digits \<^verbatim>\<open>0\<close>..\<^verbatim>\<open>9\<close>, as \<open>str_nat\<close> produces.\<close>
  "decimal ds = (ds \<noteq> [] \<and> (\<forall>c \<in> set ds. \<exists>d < 10. c = digit_char d))"

section \<open>The console and the exceptions that leave a function\<close>

datatype exn = EOFError | IndexError

record console =
  stdin :: "string list"
  stdout :: string

text \<open>
  \<open>stdin\<close> holds the lines still to be read, each without its line end, as \<^verbatim>\<open>input\<close>
  returns them; \<open>stdout\<close> is the text written so far.
\<close>

definition py_print :: "string \<Rightarrow> console \<Rightarrow> console" where
  \<comment> \<open>\<^verbatim>\<open>print(s)\<close>\<close>
  "py_print s c = c\<lparr>stdout := stdout c @ s @ [LF]\<rparr>"

definition py_input :: "string \<Rightarrow> console \<Rightarrow> exn + (string \<times> console)" where
  \<comment> \<open>\<^verbatim>\<open>input(prompt)\<close>: writes the prompt, reads one line; end of input raises.\<close>
  "py_input p c =
     (case stdin c of
        [] \<Rightarrow> Inl EOFError
      | l # ls \<Rightarrow> Inr (l, c\<lparr>stdin := ls, stdout := stdout c @ p\<rparr>))"

definition getitem :: "'a list \<Rightarrow> int \<Rightarrow> exn + 'a" where
  \<comment> \<open>\<^verbatim>\<open>items[i]\<close>: an index from \<open>-len\<close> up to \<open>-1\<close> counts from the end; outside
      \<open>-len..len-1\<close> the subscript raises.\<close>
  "getitem xs i =
     (if 0 \<le> i \<and> i < int (length xs) then Inr (xs ! nat i)
      else if - int (length xs) \<le> i \<and> i < 0 then Inr (xs ! nat (int (length xs) + i))
      else Inl IndexError)"

section \<open>The functions of the script\<close>

definition parse_directive :: "string \<Rightarrow> string list" where
  "parse_directive line =
     (let line1 = split_sep_max1 (CHR ''#'') line ! 0;
          parts = split_ws_max1 line1
      in if length parts < 2 then []
         else map strip (filter (\<lambda>item. strip item \<noteq> []) (split_sep (CHR '','') (parts ! 1))))"

definition format_directive :: "string \<Rightarrow> string list \<Rightarrow> string" where
  "format_directive name items = name @ '' '' @ str_join '','' items @ [LF]"

definition prompt :: string where
  "prompt = ''Enter new order as space-separated numbers (e.g. '' @ [CHR 0x27] @ ''3 1 2''
     @ [CHR 0x27] @ '') or press Enter to keep current order: ''"

definition invalid_message :: string where
  "invalid_message = ''Invalid input; keeping existing order.''"

fun print_items :: "nat \<Rightarrow> string list \<Rightarrow> console \<Rightarrow> console" where
  \<comment> \<open>The loop \<^verbatim>\<open>for i, item in enumerate(items, 1): print(f"  {i}. {item}")\<close>, from \<open>i\<close> on.\<close>
  "print_items i [] c = c"
| "print_items i (item # rest) c =
     print_items (Suc i) rest (py_print (''  '' @ str_nat i @ ''. '' @ item) c)"

fun parse_indices :: "string list \<Rightarrow> int list option" where
  \<comment> \<open>\<^verbatim>\<open>[int(x) - 1 for x in words]\<close>; \<open>None\<close> when some \<^verbatim>\<open>int(x)\<close> raises \<^verbatim>\<open>ValueError\<close>.\<close>
  "parse_indices [] = Some []"
| "parse_indices (x # xs) =
     (case py_int x of
        None \<Rightarrow> None
      | Some n \<Rightarrow> (case parse_indices xs of None \<Rightarrow> None | Some ns \<Rightarrow> Some ((n - 1) # ns)))"

fun getitems :: "'a list \<Rightarrow> int list \<Rightarrow> exn + 'a list" where
  \<comment> \<open>\<^verbatim>\<open>[items[i] for i in indices]\<close>\<close>
  "getitems items [] = Inr []"
| "getitems items (i # rest) =
     (case getitem items i of
        Inl e \<Rightarrow> Inl e
      | Inr x \<Rightarrow> (case getitems items rest of Inl e \<Rightarrow> Inl e | Inr xs \<Rightarrow> Inr (x # xs)))"

definition reorder :: "string list \<Rightarrow> console \<Rightarrow> exn + (string list \<times> console)" where
  "reorder items c =
     (let c1 = py_print ''Current order:'' c;
          c2 = print_items 1 items c1
      in case py_input prompt c2 of
           Inl e \<Rightarrow> Inl e
         | Inr (raw, c3) \<Rightarrow>
             (let response = strip raw
              in if response = [] then Inr (items, c3)
                 else (case parse_indices (split_ws response) of
                         None \<Rightarrow> Inr (items, py_print invalid_message c3)
                       | Some indices \<Rightarrow>
                           if sort indices \<noteq> map int [0..<length items]
                           then Inr (items, py_print invalid_message c3)
                           else (case getitems items indices of
                                   Inl e \<Rightarrow> Inl e
                                 | Inr result \<Rightarrow> Inr (result, c3)))))"

definition word_boundary :: "string \<Rightarrow> nat \<Rightarrow> bool" where
  \<comment> \<open>\<^verbatim>\<open>\b\<close> at position \<open>i\<close>: exactly one of the characters before and after is a word
      character.\<close>
  "word_boundary s i =
     ((0 < i \<and> i \<le> length s \<and> isword (s ! (i - 1))) \<noteq> (i < length s \<and> isword (s ! i)))"

definition match_keyword :: "string \<Rightarrow> string \<Rightarrow> string option" where
  \<comment> \<open>One alternative of the pattern: the lower-case keyword \<open>kw\<close> matched at the start of
      \<open>s\<close> ignoring case, then \<^verbatim>\<open>\b\<close>; the result is the matched text.\<close>
  "match_keyword kw s =
     (let n = length kw
      in if n \<le> length s \<and> map tolower (take n s) = kw \<and> word_boundary s n
         then Some (take n s) else None)"

definition directive_pattern_match :: "string \<Rightarrow> string option" where
  \<comment> \<open>\<^verbatim>\<open>re.compile(r'^(scanfor|showtools)\b', re.IGNORECASE).match(s)\<close>, giving
      \<^verbatim>\<open>match.group(1)\<close>.\<close>
  "directive_pattern_match s =
     (case match_keyword ''scanfor'' s of
        Some g \<Rightarrow> Some g
      | None \<Rightarrow> match_keyword ''showtools'' s)"

definition directive_name :: "string \<Rightarrow> bool" where
  \<comment> \<open>The texts that group 1 of the pattern can hold: \<^verbatim>\<open>scanfor\<close> or \<^verbatim>\<open>showtools\<close> in any
      mix of upper and lower case.\<close>
  "directive_name name = (map tolower name = ''scanfor'' \<or> map tolower name = ''showtools'')"

definition uncommented :: "string \<Rightarrow> string" where
  \<comment> \<open>\<^verbatim>\<open>line.lstrip('#').lstrip()\<close>\<close>
  "uncommented line = lstrip (lstrip_chars ''#'' line)"

definition process_line :: "string \<Rightarrow> console \<Rightarrow> exn + (string \<times> console)" where
  \<comment> \<open>The body of the loop of \<^verbatim>\<open>process_file\<close>: the line to append, and the console.\<close>
  "process_line line c =
     (case directive_pattern_match (uncommented line) of
        None \<Rightarrow> Inr (line, c)
      | Some name \<Rightarrow>
          (let items = parse_directive (uncommented line)
           in if items \<noteq> []
              then (case reorder items c of
                      Inl e \<Rightarrow> Inl e
                    | Inr (items', c') \<Rightarrow> Inr (format_directive name items', c'))
              else Inr (line, c)))"

fun process_lines :: "string list \<Rightarrow> console \<Rightarrow> exn + (string list \<times> console)" where
  \<comment> \<open>The loop \<^verbatim>\<open>for line in lines\<close>, building \<^verbatim>\<open>updated_lines\<close>.\<close>
  "process_lines [] c = Inr ([], c)"
| "process_lines (line # rest) c =
     (case process_line line c of
        Inl e \<Rightarrow> Inl e
      | Inr (line', c') \<Rightarrow>
          (case process_lines rest c' of
             Inl e \<Rightarrow> Inl e
           | Inr (rest', c'') \<Rightarrow> Inr (line' # rest', c'')))"

subsection \<open>Reading and writing the file\<close>

fun universal_newlines :: "string \<Rightarrow> string" where
  \<comment> \<open>Text mode with the default \<^verbatim>\<open>newline=None\<close>: on reading, \<^verbatim>\<open>\r\n\<close> and a lone
      \<^verbatim>\<open>\r\<close> become \<^verbatim>\<open>\n\<close>.\<close>
  "universal_newlines [] = []"
| "universal_newlines [c] = [if c = CR then LF else c]"
| "universal_newlines (c # d # cs) =
     (if c = CR then (if d = LF then LF # universal_newlines cs
                      else LF # universal_newlines (d # cs))
      else c # universal_newlines (d # cs))"

fun readlines :: "string \<Rightarrow> string list" where
  \<comment> \<open>\<^verbatim>\<open>f.readlines()\<close> on the translated text: each line keeps its \<^verbatim>\<open>\n\<close>; the last
      line may lack one.\<close>
  "readlines [] = []"
| "readlines (c # cs) =
     (if c = LF then [LF] # readlines cs
      else (case readlines cs of
              [] \<Rightarrow> [[c]]
            | l # ls \<Rightarrow> (c # l) # ls))"

definition process_file :: "string \<Rightarrow> console \<Rightarrow> exn + (string \<times> console)" where
  \<comment> \<open>\<^verbatim>\<open>process_file(path)\<close> on the decoded text of the file at \<^verbatim>\<open>path\<close>; the result is
      the text written back (\<^verbatim>\<open>writelines\<close> concatenates; on a POSIX system \<^verbatim>\<open>\n\<close> is
      written as it is). An exception leaves the file as it was: nothing is written.\<close>
  "process_file content c =
     (case process_lines (readlines (universal_newlines content)) c of
        Inl e \<Rightarrow> Inl e
      | Inr (updated_lines, c') \<Rightarrow> Inr (concat updated_lines, c'))"

definition after_prompt :: "string list \<Rightarrow> console \<Rightarrow> console" where
  \<comment> \<open>The console once \<open>reorder\<close> has printed its listing and \<^verbatim>\<open>input\<close> has written the
      prompt and taken one line.\<close>
  "after_prompt items c =
     (let c2 = print_items 1 items (py_print ''Current order:'' c)
      in c2\<lparr>stdin := tl (stdin c2), stdout := stdout c2 @ prompt\<rparr>)"


definition detected :: "string \<Rightarrow> bool" where
  \<comment> \<open>The test \<^verbatim>\<open>if match:\<close> of the loop.\<close>
  "detected line = (directive_pattern_match (uncommented line) \<noteq> None)"

definition matches_directive_regex :: "string \<Rightarrow> bool" where
  \<comment> \<open>The language of the specification's pattern \<^verbatim>\<open>^#*\s*(scanfor|showtools)\b\<close>, read
      case-insensitively, written out: a run of \<^verbatim>\<open>#\<close>, a run of whitespace, the keyword,
      and then the end of the line or a character that is not a word character. This is
      the specification's side of the comparison with \<open>detected\<close>.\<close>
  "matches_directive_regex line =
     (\<exists>hashes ws kw rest.
        line = hashes @ ws @ kw @ rest
        \<and> (\<forall>c \<in> set hashes. c = CHR ''#'')
        \<and> (\<forall>c \<in> set ws. isspace c)
        \<and> directive_name kw
        \<and> (rest = [] \<or> \<not> isword (hd rest)))"

section \<open>Auxiliary facts\<close>

subsection \<open>Splitting at whitespace\<close>

lemma split_ws_Nil [simp]: "split_ws [] = []"
  by (simp add: split_ws.simps)

lemma split_ws_all_space: "\<forall>c \<in> set s. isspace c \<Longrightarrow> split_ws s = []"
  by (subst split_ws.simps) simp

lemma split_ws_lstrip: "split_ws (dropWhile isspace s) = split_ws s"
  by (subst split_ws.simps, subst (2) split_ws.simps) (simp add: dropWhile_idem)

lemma split_ws_word:
  assumes "dropWhile isspace s \<noteq> []"
  shows "split_ws s = takeWhile (\<lambda>c. \<not> isspace c) (dropWhile isspace s)
                       # split_ws (dropWhile (\<lambda>c. \<not> isspace c) (dropWhile isspace s))"
  using assms by (subst split_ws.simps) (simp add: Let_def)

lemma split_ws_append_space:
  assumes ws: "\<forall>c \<in> set ws. isspace c"
  shows "split_ws (s @ ws) = split_ws s"
proof (induction s rule: split_ws.induct)
  case (1 s)
  define s1 where "s1 = dropWhile isspace s"
  show ?case
  proof (cases "s1 = []")
    case True
    then have "\<forall>c \<in> set s. isspace c"
      by (simp add: s1_def dropWhile_eq_Nil_conv)
    then have "split_ws (s @ ws) = []" and "split_ws s = []"
      using ws by (auto intro!: split_ws_all_space)
    then show ?thesis by simp
  next
    case ne: False
    then have ex: "\<exists>x \<in> set s. \<not> isspace x"
      by (auto simp: s1_def dropWhile_eq_Nil_conv)
    then have d: "dropWhile isspace (s @ ws) = s1 @ ws"
      by (auto simp: s1_def dropWhile_append1)
    show ?thesis
    proof (cases "\<exists>x \<in> set s1. isspace x")
      case True
      then have t: "takeWhile (\<lambda>c. \<not> isspace c) (s1 @ ws) = takeWhile (\<lambda>c. \<not> isspace c) s1"
        and dd: "dropWhile (\<lambda>c. \<not> isspace c) (s1 @ ws) = dropWhile (\<lambda>c. \<not> isspace c) s1 @ ws"
        by (auto simp: takeWhile_append1 dropWhile_append1)
      have "split_ws (s @ ws) = takeWhile (\<lambda>c. \<not> isspace c) s1 # split_ws (dropWhile (\<lambda>c. \<not> isspace c) s1 @ ws)"
        using ne by (simp add: split_ws_word [of "s @ ws"] d t dd)
      also have "\<dots> = takeWhile (\<lambda>c. \<not> isspace c) s1 # split_ws (dropWhile (\<lambda>c. \<not> isspace c) s1)"
        using "1.IH" [OF s1_def ne] by simp
      also have "\<dots> = split_ws s"
        using ne by (simp add: split_ws_word [of s] s1_def)
      finally show ?thesis .
    next
      case False
      then have all: "\<forall>x \<in> set s1. \<not> isspace x" by simp
      have tw: "takeWhile (\<lambda>c. \<not> isspace c) ws = []"
        using ws by (cases ws) simp_all
      have t: "takeWhile (\<lambda>c. \<not> isspace c) (s1 @ ws) = s1"
        using all tw by (simp add: takeWhile_append2)
      have dd: "dropWhile (\<lambda>c. \<not> isspace c) (s1 @ ws) = dropWhile (\<lambda>c. \<not> isspace c) ws"
        using all by (simp add: dropWhile_append2)
      have dw: "dropWhile (\<lambda>c. \<not> isspace c) ws = ws"
        using ws by (cases ws) simp_all
      have "split_ws (s @ ws) = s1 # split_ws ws"
        using ne by (simp add: split_ws_word [of "s @ ws"] d t dd dw)
      also have "\<dots> = [s1]"
        using ws by (simp add: split_ws_all_space)
      also have "\<dots> = split_ws s"
      proof -
        have tk: "takeWhile (\<lambda>c. \<not> isspace c) s1 = s1"
          and dr: "dropWhile (\<lambda>c. \<not> isspace c) s1 = []"
          using all by simp_all
        have "split_ws s = takeWhile (\<lambda>c. \<not> isspace c) s1
                # split_ws (dropWhile (\<lambda>c. \<not> isspace c) s1)"
          using ne unfolding s1_def by (rule split_ws_word)
        then show ?thesis
          unfolding tk dr by simp
      qed
      finally show ?thesis .
    qed
  qed
qed

lemma split_ws_rstrip: "split_ws (rstrip s) = split_ws s"
proof -
  have "s = rstrip s @ rev (takeWhile isspace (rev s))"
    unfolding rstrip_def by (metis rev_append rev_rev_ident takeWhile_dropWhile_id)
  moreover have "\<forall>c \<in> set (rev (takeWhile isspace (rev s))). isspace c"
    by (auto dest: set_takeWhileD)
  ultimately show ?thesis
    using split_ws_append_space by metis
qed

lemma split_ws_strip: "split_ws (strip s) = split_ws s"
  by (simp add: strip_def lstrip_def split_ws_rstrip split_ws_lstrip)


subsection \<open>Trimming\<close>

lemma lstrip_id: "s \<noteq> [] \<Longrightarrow> \<not> isspace (hd s) \<Longrightarrow> lstrip s = s"
  by (cases s) (simp_all add: lstrip_def)

lemma rstrip_id: "s \<noteq> [] \<Longrightarrow> \<not> isspace (last s) \<Longrightarrow> rstrip s = s"
proof -
  assume ne: "s \<noteq> []" and l: "\<not> isspace (last s)"
  then have "rev s \<noteq> []" and "\<not> isspace (hd (rev s))"
    by (simp_all add: hd_rev)
  then have "dropWhile isspace (rev s) = rev s"
    by (cases "rev s") simp_all
  then show ?thesis by (simp add: rstrip_def)
qed

lemma strip_id: "s \<noteq> [] \<Longrightarrow> \<not> isspace (hd s) \<Longrightarrow> \<not> isspace (last s) \<Longrightarrow> strip s = s"
  by (simp add: strip_def lstrip_id rstrip_id)

lemma rstrip_append_space:
  assumes "\<forall>c \<in> set ws. isspace c"
  shows "rstrip (s @ ws) = rstrip s"
proof -
  have "dropWhile isspace (rev ws @ rev s) = dropWhile isspace (rev s)"
    by (rule dropWhile_append2) (use assms in auto)
  then show ?thesis by (simp add: rstrip_def)
qed

lemma set_lstrip: "set (lstrip s) \<subseteq> set s"
  by (auto simp: lstrip_def dest: set_dropWhileD)

lemma set_rstrip: "set (rstrip s) \<subseteq> set s"
  by (auto simp: rstrip_def dest: set_dropWhileD)

lemma set_strip: "set (strip s) \<subseteq> set s"
  using set_lstrip set_rstrip by (fastforce simp: strip_def)

lemma last_rstrip: "rstrip s \<noteq> [] \<Longrightarrow> \<not> isspace (last (rstrip s))"
proof -
  assume "rstrip s \<noteq> []"
  then have ne: "dropWhile isspace (rev s) \<noteq> []"
    by (simp add: rstrip_def)
  then have "\<not> isspace (hd (dropWhile isspace (rev s)))"
    by (rule hd_dropWhile)
  then show ?thesis
    using ne by (simp add: rstrip_def last_rev)
qed

lemma rstrip_prefix: "\<exists>ws. s = rstrip s @ ws \<and> (\<forall>c \<in> set ws. isspace c)"
proof -
  have "s = rstrip s @ rev (takeWhile isspace (rev s))"
    unfolding rstrip_def by (metis rev_append rev_rev_ident takeWhile_dropWhile_id)
  moreover have "\<forall>c \<in> set (rev (takeWhile isspace (rev s))). isspace c"
    by (auto dest: set_takeWhileD)
  ultimately show ?thesis by blast
qed

lemma hd_rstrip: "rstrip s \<noteq> [] \<Longrightarrow> hd (rstrip s) = hd s"
  using rstrip_prefix [of s] by (metis hd_append2)

lemma hd_strip: "strip s \<noteq> [] \<Longrightarrow> \<not> isspace (hd (strip s))"
proof -
  assume ne: "strip s \<noteq> []"
  then have l: "lstrip s \<noteq> []"
    by (auto simp: strip_def rstrip_def)
  then have "\<not> isspace (hd (lstrip s))"
    unfolding lstrip_def by (rule hd_dropWhile)
  then show ?thesis
    using ne by (simp add: strip_def hd_rstrip)
qed

lemma last_strip: "strip s \<noteq> [] \<Longrightarrow> \<not> isspace (last (strip s))"
  by (simp add: strip_def last_rstrip)

lemma strip_strip: "strip (strip s) = strip s"
proof (cases "strip s = []")
  case True
  have "strip [] = []" by (simp add: strip_def lstrip_def rstrip_def)
  then show ?thesis unfolding True .
next
  case False
  then show ?thesis by (simp add: strip_id hd_strip last_strip)
qed

subsection \<open>Splitting at a separator and joining\<close>

lemma split_sep_nonempty [simp]: "split_sep sep s \<noteq> []"
  by (induction s) (auto split: list.splits)

lemma split_sep_free: "sep \<notin> set p \<Longrightarrow> split_sep sep p = [p]"
  by (induction p) auto

lemma split_sep_append: "sep \<notin> set p \<Longrightarrow> split_sep sep (p @ sep # r) = p # split_sep sep r"
  by (induction p) auto

lemma split_sep_pieces: "p \<in> set (split_sep sep s) \<Longrightarrow> sep \<notin> set p \<and> set p \<subseteq> set s"
proof (induction s arbitrary: p)
  case Nil
  then show ?case by simp
next
  case (Cons c cs)
  show ?case
  proof (cases "c = sep")
    case True
    then show ?thesis using Cons by auto
  next
    case False
    obtain q qs where q: "split_sep sep cs = q # qs"
      by (cases "split_sep sep cs") simp_all
    then have "p = c # q \<or> p \<in> set qs"
      using Cons.prems False by simp
    then show ?thesis
      using Cons.IH [of q] Cons.IH [of p] q False by auto
  qed
qed

lemma str_join_split_sep: "str_join [sep] (split_sep sep s) = s"
proof (induction s)
  case Nil
  then show ?case by simp
next
  case (Cons c cs)
  obtain q qs where q: "split_sep sep cs = q # qs"
    by (cases "split_sep sep cs") simp_all
  show ?case
  proof (cases "c = sep")
    case True
    then show ?thesis using Cons q by simp
  next
    case False
    then show ?thesis using Cons q by (cases qs) simp_all
  qed
qed

lemma set_str_join: "set (str_join sep xs) \<subseteq> set sep \<union> \<Union> (set ` set xs)"
  by (induction sep xs rule: str_join.induct) auto

lemma split_sep_join:
  assumes "xs \<noteq> []" and "\<forall>x \<in> set xs. sep \<notin> set x" and "sep \<notin> set e"
  shows "split_sep sep (str_join [sep] xs @ e) = butlast xs @ [last xs @ e]"
  using assms
proof (induction "[sep]" xs rule: str_join.induct)
  case 1
  then show ?case by simp
next
  case (2 x)
  then show ?case by (simp add: split_sep_free)
next
  case (3 x y ys)
  have "split_sep sep (str_join [sep] (x # y # ys) @ e)
          = split_sep sep (x @ sep # (str_join [sep] (y # ys) @ e))"
    by simp
  also have "\<dots> = x # split_sep sep (str_join [sep] (y # ys) @ e)"
    using "3.prems" by (simp add: split_sep_append)
  also have "\<dots> = x # (butlast (y # ys) @ [last (y # ys) @ e])"
    using "3.hyps" "3.prems" by simp
  finally show ?case by simp
qed

subsection \<open>The steps of \<open>parse_directive\<close>\<close>

lemma span_append:
  assumes "\<forall>x \<in> set a. P x" and "b = [] \<or> \<not> P (hd b)"
  shows "takeWhile P (a @ b) = a" and "dropWhile P (a @ b) = b"
proof -
  have t: "takeWhile P b = []" and d: "dropWhile P b = b"
    using assms(2) by (cases b; simp)+
  show "takeWhile P (a @ b) = a"
    using assms(1) t by (simp add: takeWhile_append2)
  show "dropWhile P (a @ b) = b"
    using assms(1) d by (simp add: dropWhile_append2)
qed

lemma comment_cut:
  "split_sep_max1 (CHR ''#'') line ! 0 = takeWhile (\<lambda>c. c \<noteq> CHR ''#'') line"
proof (cases "dropWhile (\<lambda>c. c \<noteq> CHR ''#'') line")
  case Nil
  then have t: "takeWhile (\<lambda>c. c \<noteq> CHR ''#'') line = line"
    by (metis append_Nil2 takeWhile_dropWhile_id)
  have "split_sep_max1 (CHR ''#'') line = [line]"
    unfolding split_sep_max1_def Nil by simp
  then show ?thesis by (simp only: t nth_Cons_0)
next
  case (Cons a rest)
  have "split_sep_max1 (CHR ''#'') line = [takeWhile (\<lambda>c. c \<noteq> CHR ''#'') line, rest]"
    unfolding split_sep_max1_def Cons by simp
  then show ?thesis by (simp only: nth_Cons_0)
qed

lemma parse_directive_parts:
  "parse_directive line =
     (let parts = split_ws_max1 (takeWhile (\<lambda>c. c \<noteq> CHR ''#'') line)
      in if length parts < 2 then []
         else filter (\<lambda>t. t \<noteq> []) (map strip (split_sep (CHR '','') (parts ! 1))))"
  by (simp add: parse_directive_def comment_cut Let_def filter_map comp_def)

lemma split_ws_max1_two:
  assumes "\<forall>c \<in> set ws0. isspace c"
    and "kw \<noteq> []" and "\<forall>c \<in> set kw. \<not> isspace c"
    and "ws \<noteq> []" and "\<forall>c \<in> set ws. isspace c"
    and "rem \<noteq> []" and "\<not> isspace (hd rem)"
  shows "split_ws_max1 (ws0 @ kw @ ws @ rem) = [kw, rem]"
proof -
  have a: "dropWhile isspace (ws0 @ kw @ ws @ rem) = kw @ ws @ rem"
    using assms by (intro span_append) (simp_all add: hd_append)
  have b: "takeWhile (\<lambda>c. \<not> isspace c) (kw @ ws @ rem) = kw"
    and c: "dropWhile (\<lambda>c. \<not> isspace c) (kw @ ws @ rem) = ws @ rem"
    using assms by (intro span_append; simp add: hd_append)+
  have d: "dropWhile isspace (ws @ rem) = rem"
    using assms by (intro span_append) simp_all
  show ?thesis
    using assms(2,6) by (simp add: split_ws_max1_def a b c d Let_def)
qed

lemma split_ws_max1_short:
  assumes "\<forall>c \<in> set ws0. isspace c"
    and "\<forall>c \<in> set kw. \<not> isspace c"
    and "\<forall>c \<in> set ws. isspace c"
  shows "length (split_ws_max1 (ws0 @ kw @ ws)) < 2"
proof (cases "kw = []")
  case True
  then have "dropWhile isspace (ws0 @ kw @ ws) = []"
    using assms by simp
  then show ?thesis by (simp add: split_ws_max1_def)
next
  case False
  have a: "dropWhile isspace (ws0 @ kw @ ws) = kw @ ws"
    using assms False by (intro span_append) (simp_all add: hd_append)
  have c: "dropWhile (\<lambda>c. \<not> isspace c) (kw @ ws) = ws"
    using assms by (intro span_append; cases ws; simp)
  have d: "dropWhile isspace ws = []"
    using assms by simp
  show ?thesis
    by (simp add: split_ws_max1_def a c d Let_def)
qed

lemma set_dropWhile_subset: "set (dropWhile P xs) \<subseteq> set xs"
  by (auto dest: set_dropWhileD)

lemma split_ws_max1_cases:
  "split_ws_max1 s =
     (if dropWhile isspace s = [] then []
      else if dropWhile isspace (dropWhile (\<lambda>c. \<not> isspace c) (dropWhile isspace s)) = []
           then [takeWhile (\<lambda>c. \<not> isspace c) (dropWhile isspace s)]
           else [takeWhile (\<lambda>c. \<not> isspace c) (dropWhile isspace s),
                 dropWhile isspace (dropWhile (\<lambda>c. \<not> isspace c) (dropWhile isspace s))])"
  unfolding split_ws_max1_def Let_def by (rule refl)

lemma split_ws_max1_second:
  assumes "\<not> length (split_ws_max1 s) < 2"
  shows "set (split_ws_max1 s ! 1) \<subseteq> set s"
proof -
  define s1 where "s1 = dropWhile isspace s"
  define s2 where "s2 = dropWhile (\<lambda>c. \<not> isspace c) s1"
  define r where "r = dropWhile isspace s2"
  have eq: "split_ws_max1 s = (if s1 = [] then [] else if r = [] then [takeWhile (\<lambda>c. \<not> isspace c) s1]
                else [takeWhile (\<lambda>c. \<not> isspace c) s1, r])"
    unfolding s1_def s2_def r_def by (rule split_ws_max1_cases)
  have "s1 \<noteq> []" and "r \<noteq> []"
    using assms unfolding eq by (simp_all split: if_split_asm)
  then have "split_ws_max1 s ! 1 = r"
    unfolding eq by simp
  moreover have "set r \<subseteq> set s2"
    unfolding r_def by (rule set_dropWhile_subset)
  moreover have "set s2 \<subseteq> set s1"
    unfolding s2_def by (rule set_dropWhile_subset)
  moreover have "set s1 \<subseteq> set s"
    unfolding s1_def by (rule set_dropWhile_subset)
  ultimately show ?thesis by simp
qed

lemma parse_directive_tokens:
  assumes "t \<in> set (parse_directive line)"
  shows "t \<noteq> [] \<and> \<not> isspace (hd t) \<and> \<not> isspace (last t)
         \<and> CHR '','' \<notin> set t \<and> CHR ''#'' \<notin> set t"
proof -
  define body where "body = takeWhile (\<lambda>c. c \<noteq> CHR ''#'') line"
  define parts where "parts = split_ws_max1 body"
  have pd: "parse_directive line =
      (if length parts < 2 then []
       else filter (\<lambda>t. t \<noteq> []) (map strip (split_sep (CHR '','') (parts ! 1))))"
    unfolding parts_def body_def parse_directive_parts Let_def by (rule refl)
  have long: "\<not> length parts < 2"
    using assms unfolding pd by (simp split: if_split_asm)
  then have "t \<in> set (filter (\<lambda>t. t \<noteq> []) (map strip (split_sep (CHR '','') (parts ! 1))))"
    using assms unfolding pd by simp
  then have ne: "t \<noteq> []" and im: "t \<in> strip ` set (split_sep (CHR '','') (parts ! 1))"
    by simp_all
  from im obtain p where t: "t = strip p" and p: "p \<in> set (split_sep (CHR '','') (parts ! 1))"
    by (rule imageE)
  have c1: "CHR '','' \<notin> set p" and c2: "set p \<subseteq> set (parts ! 1)"
    using split_sep_pieces [OF p] by simp_all
  have c3: "set (parts ! 1) \<subseteq> set body"
    using long unfolding parts_def by (rule split_ws_max1_second)
  have c4: "CHR ''#'' \<notin> set body"
  proof
    assume "CHR ''#'' \<in> set body"
    then have "CHR ''#'' \<noteq> CHR ''#''"
      unfolding body_def by (rule set_takeWhileD [THEN conjunct2])
    then show False by simp
  qed
  have c5: "set t \<subseteq> set p"
    unfolding t by (rule set_strip)
  have "set t \<subseteq> set body"
    by (rule order_trans [OF c5 order_trans [OF c2 c3]])
  then have "CHR ''#'' \<notin> set t"
    using c4 by (rule contra_subsetD)
  moreover have "CHR '','' \<notin> set t"
    using c5 c1 by (rule contra_subsetD)
  moreover have "\<not> isspace (hd t)"
    using ne unfolding t by (rule hd_strip)
  moreover have "\<not> isspace (last t)"
    using ne unfolding t by (rule last_strip)
  ultimately show ?thesis
    using ne by simp
qed

lemma strip_append_LF:
  assumes "t \<noteq> []" and "\<not> isspace (hd t)" and "\<not> isspace (last t)"
  shows "strip (t @ [LF]) = t"
proof -
  have sp: "\<forall>c \<in> set [LF]. isspace c"
    by (simp add: isspace_def LF_def)
  have "lstrip (t @ [LF]) = t @ [LF]"
    using assms by (simp add: lstrip_id)
  then have "strip (t @ [LF]) = rstrip (t @ [LF])"
    by (simp add: strip_def)
  also have "\<dots> = rstrip t"
    using sp by (rule rstrip_append_space)
  also have "\<dots> = t"
    using assms by (simp add: rstrip_id)
  finally show ?thesis .
qed


lemma map_strip_clean:
  assumes "\<forall>t \<in> set ts. t \<noteq> [] \<and> \<not> isspace (hd t) \<and> \<not> isspace (last t)"
  shows "map strip ts = ts"
  using assms by (induction ts) (simp_all add: strip_id)


lemma str_join_free:
  "c \<notin> set sep \<Longrightarrow> \<forall>x \<in> set xs. c \<notin> set x \<Longrightarrow> c \<notin> set (str_join sep xs)"
  by (induction sep xs rule: str_join.induct) auto


lemma hd_str_join: "t \<noteq> [] \<Longrightarrow> str_join sep (t # ts) \<noteq> [] \<and> hd (str_join sep (t # ts)) = hd t"
  by (cases ts) simp_all


lemma parse_directive_by_parts:
  assumes "takeWhile (\<lambda>c. c \<noteq> CHR ''#'') line = body"
  shows "length (split_ws_max1 body) < 2 \<Longrightarrow> parse_directive line = []"
    and "split_ws_max1 body = [kw, rem] \<Longrightarrow>
           parse_directive line = filter (\<lambda>t. t \<noteq> []) (map strip (split_sep (CHR '','') rem))"
  using assms by (simp_all add: parse_directive_parts)




lemma parse_format:
  assumes name: "name \<noteq> []" "\<forall>c \<in> set name. \<not> isspace c \<and> c \<noteq> CHR ''#''"
    and toks: "\<forall>t \<in> set toks. t \<noteq> [] \<and> \<not> isspace (hd t) \<and> \<not> isspace (last t)
                  \<and> CHR '','' \<notin> set t \<and> CHR ''#'' \<notin> set t"
  shows "parse_directive (format_directive name toks) = toks"
proof -
  define J where "J = str_join '','' toks"
  define line where "line = name @ '' '' @ J @ [LF]"
  have fmt: "format_directive name toks = line"
    by (simp add: format_directive_def line_def J_def)
  have "CHR ''#'' \<notin> set J"
    unfolding J_def using toks by (intro str_join_free) simp_all
  then have "\<forall>c \<in> set line. c \<noteq> CHR ''#''"
    using name(2) by (auto simp: line_def LF_def)
  then have body: "takeWhile (\<lambda>c. c \<noteq> CHR ''#'') line = line"
    by (simp only: takeWhile_eq_all_conv)
  have sp: "\<forall>c \<in> set '' ''. isspace c"
    by (simp add: isspace_def)
  have nm: "\<forall>c \<in> set name. \<not> isspace c"
    using name(2) by simp
  show ?thesis
  proof (cases "toks = []")
    case True
    have "\<forall>c \<in> set ('' '' @ [LF]). isspace c"
      by (simp add: isspace_def LF_def)
    then have "length (split_ws_max1 ([] @ name @ ('' '' @ [LF]))) < 2"
      using nm by (intro split_ws_max1_short) simp_all
    moreover have "line = [] @ name @ ('' '' @ [LF])"
      using True by (simp add: line_def J_def)
    ultimately have "length (split_ws_max1 line) < 2"
      by (simp only:)
    then have "parse_directive line = []"
      by (rule parse_directive_by_parts(1) [OF body])
    then have "parse_directive (format_directive name toks) = []"
      by (simp only: fmt)
    then show ?thesis
      using True by simp
  next
    case False
    then obtain t ts where tts: "toks = t # ts"
      by (cases toks) auto
    have "t \<noteq> []" and "\<not> isspace (hd t)"
      using toks tts by simp_all
    then have "J \<noteq> []" and "\<not> isspace (hd J)"
      using hd_str_join [of t "'',''" ts] by (simp_all add: J_def tts)
    then have rem: "J @ [LF] \<noteq> []" "\<not> isspace (hd (J @ [LF]))"
      by simp_all
    have "split_ws_max1 ([] @ name @ '' '' @ (J @ [LF])) = [name, J @ [LF]]"
      using name(1) nm sp rem by (intro split_ws_max1_two) simp_all
    moreover have "line = [] @ name @ '' '' @ (J @ [LF])"
      by (simp add: line_def)
    ultimately have parts: "split_ws_max1 line = [name, J @ [LF]]"
      by (simp only:)
    have parsed: "parse_directive line
                    = filter (\<lambda>t. t \<noteq> []) (map strip (split_sep (CHR '','') (J @ [LF])))"
      by (rule parse_directive_by_parts(2) [OF body parts])
    have "\<forall>x \<in> set toks. CHR '','' \<notin> set x"
      using toks by simp
    then have "split_sep (CHR '','') (str_join [CHR '',''] toks @ [LF])
                 = butlast toks @ [last toks @ [LF]]"
      using False by (intro split_sep_join) (simp_all add: LF_def)
    then have pieces: "split_sep (CHR '','') (J @ [LF]) = butlast toks @ [last toks @ [LF]]"
      by (simp add: J_def)
    have clean: "\<forall>t \<in> set toks. t \<noteq> [] \<and> \<not> isspace (hd t) \<and> \<not> isspace (last t)"
      using toks by simp
    have "last toks \<in> set toks"
      using False by simp
    then have lastc: "strip (last toks @ [LF]) = last toks"
      using clean by (intro strip_append_LF) simp_all
    have "\<forall>t \<in> set (butlast toks). t \<noteq> [] \<and> \<not> isspace (hd t) \<and> \<not> isspace (last t)"
      using clean by (meson in_set_butlastD)
    then have "map strip (butlast toks) = butlast toks"
      by (rule map_strip_clean)
    then have "map strip (butlast toks @ [last toks @ [LF]]) = butlast toks @ [last toks]"
      using lastc by simp
    then have m: "map strip (split_sep (CHR '','') (J @ [LF])) = toks"
      using False by (simp add: pieces)
    have f: "filter (\<lambda>t. t \<noteq> []) toks = toks"
      using clean by (simp add: filter_id_conv)
    show ?thesis
      by (simp only: fmt parsed m f)
  qed
qed

subsection \<open>Directive names\<close>

lemma tolower_space: "isspace c \<Longrightarrow> tolower c = c"
  by (auto simp: isspace_def tolower_def is_upper_def Let_def)

lemma tolower_hash: "tolower (CHR ''#'') = CHR ''#''"
  by (simp add: tolower_def is_upper_def)

lemma keyword_letters:
  "\<forall>x \<in> set ''scanfor'' \<union> set ''showtools''. \<not> isspace x \<and> x \<noteq> CHR ''#''"
  by (simp add: isspace_def)

lemma directive_name_chars:
  assumes "directive_name name"
  shows "name \<noteq> []" and "\<forall>c \<in> set name. \<not> isspace c \<and> c \<noteq> CHR ''#''"
proof -
  show "name \<noteq> []"
    using assms by (auto simp: directive_name_def)
  show "\<forall>c \<in> set name. \<not> isspace c \<and> c \<noteq> CHR ''#''"
  proof
    fix c assume c: "c \<in> set name"
    then have "tolower c \<in> set (map tolower name)"
      by simp
    then have low: "tolower c \<in> set ''scanfor'' \<union> set ''showtools''"
      using assms unfolding directive_name_def by (elim disjE) (simp_all only: Un_iff, simp_all)
    have "\<not> isspace c"
    proof
      assume "isspace c"
      then have "tolower c = c" and "isspace (tolower c)"
        by (simp_all add: tolower_space)
      then show False using low keyword_letters by blast
    qed
    moreover have "c \<noteq> CHR ''#''"
    proof
      assume "c = CHR ''#''"
      then have "tolower c = CHR ''#''"
        by (simp add: tolower_hash)
      then show False using low keyword_letters by metis
    qed
    ultimately show "\<not> isspace c \<and> c \<noteq> CHR ''#''" by simp
  qed
qed

subsection \<open>The console and the validation of \<open>reorder\<close>\<close>

lemma stdin_py_print [simp]: "stdin (py_print s c) = stdin c"
  by (simp add: py_print_def)

lemma stdin_print_items [simp]: "stdin (print_items i items c) = stdin c"
  by (induction items arbitrary: i c) simp_all

lemma reorder_response:
  assumes "stdin c = raw # rest"
  shows "reorder items c =
     (if strip raw = [] then Inr (items, after_prompt items c)
      else (case parse_indices (split_ws (strip raw)) of
              None \<Rightarrow> Inr (items, py_print invalid_message (after_prompt items c))
            | Some indices \<Rightarrow>
                if sort indices \<noteq> map int [0..<length items]
                then Inr (items, py_print invalid_message (after_prompt items c))
                else (case getitems items indices of
                        Inl e \<Rightarrow> Inl e
                      | Inr result \<Rightarrow> Inr (result, after_prompt items c))))"
  using assms by (simp add: reorder_def py_input_def after_prompt_def Let_def split: option.split sum.split)

lemma sorted_map_int_upt: "sorted (map int [0..<n])"
  by (induction n) (auto simp: sorted_append)

lemma sort_eq_range_iff: "sort xs = map int [0..<n] \<longleftrightarrow> mset xs = mset (map int [0..<n])"
proof
  assume "sort xs = map int [0..<n]"
  then have "mset (sort xs) = mset (map int [0..<n])" by simp
  then show "mset xs = mset (map int [0..<n])" by simp
next
  assume "mset xs = mset (map int [0..<n])"
  then show "sort xs = map int [0..<n]"
    using properties_for_sort [of "map int [0..<n]" xs] sorted_map_int_upt by simp
qed

lemma getitems_in_range:
  assumes "\<forall>i \<in> set indices. 0 \<le> i \<and> i < int (length items)"
  shows "getitems items indices = Inr (map (\<lambda>i. items ! nat i) indices)"
  using assms by (induction indices) (simp_all add: getitem_def)

lemma mset_select:
  assumes "mset indices = mset (map int [0..<length items])"
  shows "mset (map (\<lambda>i. items ! nat i) indices) = mset items"
proof -
  have "mset (map (\<lambda>i. items ! nat i) indices) = image_mset (\<lambda>i. items ! nat i) (mset indices)"
    by simp
  also have "\<dots> = image_mset (\<lambda>i. items ! nat i) (mset (map int [0..<length items]))"
    using assms by simp
  also have "\<dots> = mset (map (\<lambda>k. items ! k) [0..<length items])"
    by (simp add: image_mset.compositionality comp_def)
  also have "\<dots> = mset items"
    by (simp add: map_nth)
  finally show ?thesis .
qed

lemma permutation_in_range:
  assumes "mset indices = mset (map int [0..<n])"
  shows "\<forall>i \<in> set indices. 0 \<le> i \<and> i < int n"
proof -
  have "set indices = set (map int [0..<n])"
    using assms by (rule mset_eq_setD)
  then show ?thesis by auto
qed

lemma parse_indices_Some:
  "map py_int toks = map Some P \<Longrightarrow> parse_indices toks = Some (map (\<lambda>p. p - 1) P)"
  by (induction toks arbitrary: P) auto

lemma parse_indices_None:
  "parse_indices toks = None \<longleftrightarrow> (\<exists>x \<in> set toks. py_int x = None)"
  by (induction toks) (auto split: option.splits)

lemma strip_Nil_split_ws: "strip s = [] \<Longrightarrow> split_ws s = []"
  using split_ws_strip [of s] by simp

lemma decrement_range: "map (\<lambda>p. p - 1) (map int [1..<Suc n]) = map int [0..<n]"
proof -
  have "[1..<Suc n] = map Suc [0..<n]"
    by (simp add: map_Suc_upt)
  then show ?thesis by (simp add: comp_def)
qed

subsection \<open>Detection of directive lines\<close>

lemma tolower_not_upper: "\<not> is_upper c \<Longrightarrow> tolower c = c"
  by (simp add: tolower_def)

lemma upper_isword:
  assumes "is_upper c"
  shows "isword c"
proof -
  define n where "n = (of_char c :: nat)"
  have "(65 \<le> n \<and> n \<le> 90) \<or> (192 \<le> n \<and> n \<le> 222 \<and> n \<noteq> 215)"
    using assms by (simp add: is_upper_def Let_def n_def)
  then consider (a) "65 \<le> n" "n \<le> 90" | (b) "192 \<le> n" "n \<le> 214" | (c) "216 \<le> n" "n \<le> 246"
    by arith
  then have "isalnum c"
  proof cases
    case a
    then show ?thesis by (simp add: isalnum_def Let_def n_def [symmetric])
  next
    case b
    then show ?thesis by (simp add: isalnum_def Let_def n_def [symmetric])
  next
    case c
    then show ?thesis by (simp add: isalnum_def Let_def n_def [symmetric])
  qed
  then show ?thesis by (simp add: isword_def)
qed

lemma isword_tolower: "isword (tolower c) \<Longrightarrow> isword c"
  by (cases "is_upper c") (simp_all add: upper_isword tolower_not_upper)

lemma keyword_letters_word: "\<forall>x \<in> set ''scanfor'' \<union> set ''showtools''. isword x"
  by (simp add: isword_def isalnum_def)

lemma hash_not_space: "\<not> isspace (CHR ''#'')"
  by (simp add: isspace_def)


lemma directive_name_last_word:
  assumes "directive_name name"
  shows "isword (last name)"
proof -
  have ne: "name \<noteq> []"
    using assms by (rule directive_name_chars(1))
  then have "tolower (last name) = last (map tolower name)"
    by (simp add: last_map)
  moreover have "isword (last (map tolower name))"
    using assms unfolding directive_name_def by (elim disjE) (simp_all add: isword_def isalnum_def)
  ultimately show ?thesis
    by (simp add: isword_tolower)
qed

lemma word_boundary_after:
  assumes "name \<noteq> []" and "isword (last name)"
  shows "word_boundary (name @ rest) (length name) \<longleftrightarrow> (rest = [] \<or> \<not> isword (hd rest))"
proof -
  have a: "(name @ rest) ! (length name - 1) = last name"
    using assms(1) by (simp add: nth_append last_conv_nth)
  have b: "rest \<noteq> [] \<Longrightarrow> (name @ rest) ! length name = hd rest"
    by (simp add: nth_append hd_conv_nth)
  show ?thesis
    using assms a b by (cases "rest = []") (simp_all add: word_boundary_def)
qed

lemma match_keyword_iff:
  assumes "length name = length kw" and "name \<noteq> []" and "isword (last name)"
  shows "match_keyword kw (name @ rest)
           = (if map tolower name = kw \<and> (rest = [] \<or> \<not> isword (hd rest)) then Some name else None)"
  using assms word_boundary_after [OF assms(2,3), of rest]
  by (simp add: match_keyword_def Let_def)

lemma match_keyword_None:
  "map tolower (take (length kw) s) \<noteq> kw \<Longrightarrow> match_keyword kw s = None"
  by (simp add: match_keyword_def Let_def)

lemma match_keyword_Some:
  assumes "match_keyword kw s = Some name"
  shows "map tolower name = kw" and "\<exists>rest. s = name @ rest \<and> word_boundary s (length name)"
proof -
  have le: "length kw \<le> length s" and m: "map tolower (take (length kw) s) = kw"
    and wb: "word_boundary s (length kw)" and n: "name = take (length kw) s"
    using assms by (simp_all add: match_keyword_def Let_def split: if_splits)
  show "map tolower name = kw"
    using m n by simp
  have "length name = length kw"
    using le n by simp
  moreover have "s = name @ drop (length kw) s"
    using n by simp
  ultimately show "\<exists>rest. s = name @ rest \<and> word_boundary s (length name)"
    using wb by metis
qed

lemma directive_pattern_match_Some:
  assumes "directive_pattern_match s = Some name"
  shows "directive_name name" and "\<exists>rest. s = name @ rest \<and> (rest = [] \<or> \<not> isword (hd rest))"
proof -
  from assms obtain kw where kw: "kw = ''scanfor'' \<or> kw = ''showtools''"
    and mk: "match_keyword kw s = Some name"
    by (auto simp: directive_pattern_match_def split: option.splits)
  have low: "map tolower name = kw"
    using mk by (rule match_keyword_Some(1))
  show dn: "directive_name name"
    using kw low by (auto simp: directive_name_def)
  obtain rest where s: "s = name @ rest" and wb: "word_boundary s (length name)"
    using match_keyword_Some(2) [OF mk] by blast
  have "rest = [] \<or> \<not> isword (hd rest)"
    using wb word_boundary_after [OF directive_name_chars(1) [OF dn] directive_name_last_word [OF dn], of rest]
    unfolding s by simp
  then show "\<exists>rest. s = name @ rest \<and> (rest = [] \<or> \<not> isword (hd rest))"
    using s by blast
qed

lemma directive_pattern_match_intro:
  assumes dn: "directive_name kw" and r: "rest = [] \<or> \<not> isword (hd rest)"
  shows "directive_pattern_match (kw @ rest) = Some kw"
proof -
  have ne: "kw \<noteq> []" and lw: "isword (last kw)"
    using dn by (simp_all add: directive_name_chars(1) directive_name_last_word)
  from dn consider (scanfor) "map tolower kw = ''scanfor''" | (showtools) "map tolower kw = ''showtools''"
    unfolding directive_name_def by blast
  then show ?thesis
  proof cases
    case scanfor
    then have "length kw = length ''scanfor''"
      by (metis length_map)
    then have "match_keyword ''scanfor'' (kw @ rest) = Some kw"
      using scanfor r by (simp only: match_keyword_iff [OF _ ne lw] if_True simp_thms)
    then show ?thesis
      by (simp add: directive_pattern_match_def)
  next
    case showtools
    then have len: "length kw = length ''showtools''"
      by (metis length_map)
    then have st: "match_keyword ''showtools'' (kw @ rest) = Some kw"
      using showtools r by (simp only: match_keyword_iff [OF _ ne lw] if_True simp_thms)
    have "take (length ''scanfor'') (kw @ rest) = take (length ''scanfor'') kw"
      using len by simp
    then have "map tolower (take (length ''scanfor'') (kw @ rest))
                 = take (length ''scanfor'') (map tolower kw)"
      by (simp only: take_map)
    then have "map tolower (take (length ''scanfor'') (kw @ rest)) \<noteq> ''scanfor''"
      unfolding showtools by simp
    then have "match_keyword ''scanfor'' (kw @ rest) = None"
      by (rule match_keyword_None)
    then show ?thesis
      using st by (simp add: directive_pattern_match_def)
  qed
qed

lemma uncommented_decomp:
  "\<exists>hashes ws. line = hashes @ ws @ uncommented line
      \<and> (\<forall>c \<in> set hashes. c = CHR ''#'') \<and> (\<forall>c \<in> set ws. isspace c)"
proof -
  define l1 where "l1 = dropWhile (\<lambda>c. c \<in> set ''#'') line"
  have "line = takeWhile (\<lambda>c. c \<in> set ''#'') line @ l1"
    by (simp add: l1_def)
  moreover have "l1 = takeWhile isspace l1 @ uncommented line"
    by (simp add: uncommented_def lstrip_def lstrip_chars_def l1_def)
  moreover have "\<forall>c \<in> set (takeWhile (\<lambda>c. c \<in> set ''#'') line). c = CHR ''#''"
    by (auto dest: set_takeWhileD)
  moreover have "\<forall>c \<in> set (takeWhile isspace l1). isspace c"
    by (auto dest: set_takeWhileD)
  ultimately show ?thesis by metis
qed

lemma uncommented_intro:
  assumes "\<forall>c \<in> set hashes. c = CHR ''#''" and "\<forall>c \<in> set ws. isspace c"
    and "s \<noteq> []" and "\<not> isspace (hd s)" and "hd s \<noteq> CHR ''#''"
  shows "uncommented (hashes @ ws @ s) = s"
proof -
  have "hd (ws @ s) \<noteq> CHR ''#''"
    using assms hash_not_space by (cases ws) auto
  then have "dropWhile (\<lambda>c. c \<in> set ''#'') (hashes @ (ws @ s)) = ws @ s"
    using assms(1) by (intro span_append(2)) simp_all
  moreover have "dropWhile isspace (ws @ s) = s"
    using assms(2,4) by (intro span_append(2)) simp_all
  ultimately show ?thesis
    by (simp add: uncommented_def lstrip_def lstrip_chars_def)
qed

lemma detected_iff_regex: "detected line \<longleftrightarrow> matches_directive_regex line"
proof
  assume "detected line"
  then have "directive_pattern_match (uncommented line) \<noteq> None"
    by (simp add: detected_def)
  then obtain name where m: "directive_pattern_match (uncommented line) = Some name"
    by (cases "directive_pattern_match (uncommented line)") simp_all
  obtain rest where u: "uncommented line = name @ rest" and r: "rest = [] \<or> \<not> isword (hd rest)"
    using directive_pattern_match_Some(2) [OF m] by (elim exE conjE)
  obtain hashes ws where l: "line = hashes @ ws @ uncommented line"
    and h: "\<forall>c \<in> set hashes. c = CHR ''#''" and w: "\<forall>c \<in> set ws. isspace c"
    using uncommented_decomp [of line] by (elim exE conjE)
  have dn: "directive_name name"
    using m by (rule directive_pattern_match_Some(1))
  have "line = hashes @ ws @ name @ rest"
    using l unfolding u .
  then have "line = hashes @ ws @ name @ rest
        \<and> (\<forall>c \<in> set hashes. c = CHR ''#'')
        \<and> (\<forall>c \<in> set ws. isspace c)
        \<and> directive_name name
        \<and> (rest = [] \<or> \<not> isword (hd rest))"
    using h w dn r by (intro conjI)
  then show "matches_directive_regex line"
    unfolding matches_directive_regex_def by (intro exI)
next
  assume "matches_directive_regex line"
  then obtain hashes ws kw rest where l: "line = hashes @ ws @ kw @ rest"
    and h: "\<forall>c \<in> set hashes. c = CHR ''#''" and w: "\<forall>c \<in> set ws. isspace c"
    and dn: "directive_name kw" and r: "rest = [] \<or> \<not> isword (hd rest)"
    unfolding matches_directive_regex_def by (elim exE conjE)
  have ne: "kw \<noteq> []"
    using dn by (rule directive_name_chars(1))
  have ch: "\<forall>c \<in> set kw. \<not> isspace c \<and> c \<noteq> CHR ''#''"
    using dn by (rule directive_name_chars(2))
  have "hd kw \<in> set kw"
    using ne by (rule hd_in_set)
  with ch have "\<not> isspace (hd kw) \<and> hd kw \<noteq> CHR ''#''"
    by (rule bspec)
  then have a: "\<not> isspace (hd (kw @ rest))" and b: "hd (kw @ rest) \<noteq> CHR ''#''"
    using ne by simp_all
  have c: "kw @ rest \<noteq> []"
    using ne by simp
  have "uncommented (hashes @ ws @ (kw @ rest)) = kw @ rest"
    using h w c a b by (rule uncommented_intro)
  then have "uncommented line = kw @ rest"
    unfolding l .
  then have "directive_pattern_match (uncommented line) = Some kw"
    using directive_pattern_match_intro [OF dn r] by (simp only:)
  then show "detected line"
    by (simp add: detected_def)
qed

subsection \<open>The loop over the lines\<close>

lemma reorder_returns:
  assumes "stdin c = raw # rest"
  shows "\<exists>items' c'. reorder items c = Inr (items', c')
           \<and> length items' = length items \<and> mset items' = mset items
           \<and> (strip raw = [] \<longrightarrow> items' = items)"
proof (cases "strip raw = []")
  case True
  then show ?thesis by (simp add: reorder_response [OF assms])
next
  case ne: False
  show ?thesis
  proof (cases "parse_indices (split_ws (strip raw))")
    case None
    then show ?thesis using ne by (simp add: reorder_response [OF assms])
  next
    case (Some indices)
    show ?thesis
    proof (cases "sort indices = map int [0..<length items]")
      case False
      then show ?thesis using ne Some by (simp add: reorder_response [OF assms])
    next
      case True
      then have perm: "mset indices = mset (map int [0..<length items])"
        by (simp add: sort_eq_range_iff)
      have sel: "getitems items indices = Inr (map (\<lambda>i. items ! nat i) indices)"
        using permutation_in_range [OF perm] by (rule getitems_in_range)
      have len: "length indices = length items"
        using mset_eq_length [OF perm] by simp
      have "reorder items c = Inr (map (\<lambda>i. items ! nat i) indices, after_prompt items c)"
        using ne Some True sel by (simp add: reorder_response [OF assms])
      then show ?thesis
        using ne len mset_select [OF perm] by simp
    qed
  qed
qed

lemma process_line_unchanged:
  assumes "\<not> detected line \<or> parse_directive (uncommented line) = []"
  shows "process_line line c = Inr (line, c)"
  using assms by (auto simp: process_line_def detected_def Let_def split: option.splits)

lemma process_line_rewrite:
  assumes "directive_pattern_match (uncommented line) = Some name"
    and "parse_directive (uncommented line) \<noteq> []"
  shows "process_line line c =
           (case reorder (parse_directive (uncommented line)) c of
              Inl e \<Rightarrow> Inl e
            | Inr (items', c') \<Rightarrow> Inr (format_directive name items', c'))"
  using assms by (simp add: process_line_def Let_def)

lemma process_line_rewritten:
  assumes m: "directive_pattern_match (uncommented line) = Some name"
    and ne: "parse_directive (uncommented line) \<noteq> []"
    and inp: "stdin c = raw # rest"
  shows "\<exists>items' c'. process_line line c = Inr (name @ '' '' @ str_join '','' items' @ [LF], c')
           \<and> mset items' = mset (parse_directive (uncommented line))
           \<and> (strip raw = [] \<longrightarrow> items' = parse_directive (uncommented line))"
proof -
  obtain items' c' where r: "reorder (parse_directive (uncommented line)) c = Inr (items', c')"
    and ms: "mset items' = mset (parse_directive (uncommented line))"
    and keep: "strip raw = [] \<longrightarrow> items' = parse_directive (uncommented line)"
    using reorder_returns [OF inp, of "parse_directive (uncommented line)"] by (elim exE conjE)
  have "process_line line c = Inr (format_directive name items', c')"
    by (simp add: process_line_rewrite [OF m ne] r)
  then have "process_line line c = Inr (name @ '' '' @ str_join '','' items' @ [LF], c')"
    by (simp add: format_directive_def)
  then show ?thesis
    using ms keep by blast
qed

lemma process_lines_frame:
  assumes "process_lines lines c = Inr (out, c')"
  shows "length out = length lines
         \<and> (\<forall>i < length lines.
               \<not> detected (lines ! i) \<or> parse_directive (uncommented (lines ! i)) = []
               \<longrightarrow> out ! i = lines ! i)"
  using assms
proof (induction lines arbitrary: c out)
  case Nil
  then show ?case by simp
next
  case (Cons line rest)
  from Cons.prems obtain line' c1 rest' where
    pl: "process_line line c = Inr (line', c1)"
    and pr: "process_lines rest c1 = Inr (rest', c')"
    and out: "out = line' # rest'"
    by (auto split: sum.splits prod.splits)
  have ih: "length rest' = length rest
         \<and> (\<forall>i < length rest.
               \<not> detected (rest ! i) \<or> parse_directive (uncommented (rest ! i)) = []
               \<longrightarrow> rest' ! i = rest ! i)"
    using pr by (rule Cons.IH)
  have first: "\<not> detected line \<or> parse_directive (uncommented line) = [] \<Longrightarrow> line' = line"
    using pl by (simp add: process_line_unchanged)
  show ?case
  proof (intro conjI allI impI)
    show "length out = length (line # rest)"
      using ih out by simp
  next
    fix i
    assume i: "i < length (line # rest)"
      and u: "\<not> detected ((line # rest) ! i) \<or> parse_directive (uncommented ((line # rest) ! i)) = []"
    show "out ! i = (line # rest) ! i"
    proof (cases i)
      case 0
      then show ?thesis using first u out by simp
    next
      case (Suc j)
      then show ?thesis using ih i u out by simp
    qed
  qed
qed

subsection \<open>Tokens are parts of the line\<close>









lemma readlines_line:
  "l \<in> set (readlines s) \<Longrightarrow> l \<noteq> [] \<and> LF \<notin> set (butlast l)"
proof (induction s arbitrary: l)
  case Nil
  then show ?case by simp
next
  case (Cons c cs)
  show ?case
  proof (cases "c = LF")
    case True
    then have "l = [LF] \<or> l \<in> set (readlines cs)"
      using Cons.prems by simp
    then show ?thesis using Cons.IH by auto
  next
    case False
    show ?thesis
    proof (cases "readlines cs")
      case Nil
      then have "l = [c]"
        using Cons.prems False by simp
      then show ?thesis by simp
    next
      case (Cons q qs)
      then have "l = c # q \<or> l \<in> set qs"
        using Cons.prems False by simp
      moreover have "q \<noteq> [] \<and> LF \<notin> set (butlast q)"
        using Cons.IH [of q] Cons by simp
      moreover have "l \<in> set qs \<Longrightarrow> l \<noteq> [] \<and> LF \<notin> set (butlast l)"
        using Cons.IH [of l] Cons by simp
      ultimately show ?thesis
        using False by auto
    qed
  qed
qed


lemma process_file_lines:
  assumes "process_file content c = Inr (text, c')"
  shows "\<exists>out. process_lines (readlines (universal_newlines content)) c = Inr (out, c')
               \<and> text = concat out"
  using assms by (auto simp: process_file_def split: sum.splits prod.splits)

subsection \<open>Decimal numerals and responses made of them\<close>

lemma digit_char_code: "d < 10 \<Longrightarrow> (of_char (digit_char d) :: nat) = 48 + d"
  by (simp add: digit_char_def)

lemma digit_char_props:
  assumes "d < 10"
  shows "isdigit (digit_char d)" and "digit_val (digit_char d) = int d"
    and "\<not> isspace (digit_char d)" and "\<not> int_space (digit_char d)"
    and "digit_char d \<noteq> CHR ''_''" and "digit_char d \<noteq> CHR ''+''" and "digit_char d \<noteq> CHR ''-''"
proof -
  note c = digit_char_code [OF assms]
  show "isdigit (digit_char d)"
    using assms by (simp add: isdigit_def c)
  show "digit_val (digit_char d) = int d"
    by (simp add: digit_val_def c)
  show "\<not> isspace (digit_char d)"
    using assms by (simp add: isspace_def c)
  show "\<not> int_space (digit_char d)"
    using assms by (simp add: int_space_def c)
  have "(of_char (digit_char d) :: nat) \<noteq> of_char (CHR ''_'')"
    using assms by (simp add: c)
  then show "digit_char d \<noteq> CHR ''_''" by auto
  have "(of_char (digit_char d) :: nat) \<noteq> of_char (CHR ''+'')"
    using assms by (simp add: c)
  then show "digit_char d \<noteq> CHR ''+''" by auto
  have "(of_char (digit_char d) :: nat) \<noteq> of_char (CHR ''-'')"
    using assms by (simp add: c)
  then show "digit_char d \<noteq> CHR ''-''" by auto
qed

lemma decimal_single: "d < 10 \<Longrightarrow> decimal [digit_char d]"
  unfolding decimal_def by auto

lemma decimal_snoc: "decimal ds \<Longrightarrow> d < 10 \<Longrightarrow> decimal (ds @ [digit_char d])"
  unfolding decimal_def by auto

lemma decimal_elem:
  assumes "decimal ds" and "x \<in> set ds"
  shows "isdigit x" and "\<not> isspace x" and "\<not> int_space x"
    and "x \<noteq> CHR ''_''" and "x \<noteq> CHR ''+''" and "x \<noteq> CHR ''-''"
proof -
  obtain d where d: "d < 10" and x: "x = digit_char d"
    using assms unfolding decimal_def by blast
  show "isdigit x" and "\<not> isspace x" and "\<not> int_space x"
    and "x \<noteq> CHR ''_''" and "x \<noteq> CHR ''+''" and "x \<noteq> CHR ''-''"
    unfolding x using digit_char_props [OF d] by simp_all
qed

lemma decimal_str_nat: "decimal (str_nat n)"
proof (induction n rule: str_nat.induct)
  case (1 n)
  show ?case
  proof (cases "n < 10")
    case True
    then have "str_nat n = [digit_char n]"
      by (subst str_nat.simps) simp
    then show ?thesis
      using decimal_single [OF True] by simp
  next
    case False
    have m: "n mod 10 < 10" by simp
    have "str_nat n = str_nat (n div 10) @ [digit_char (n mod 10)]"
      using False by (subst str_nat.simps) simp
    then show ?thesis
      using decimal_snoc [OF "1.IH" [OF False] m] by simp
  qed
qed

lemma decimal_digits_ok: "decimal ds \<Longrightarrow> digits_ok ds"
proof (induction ds rule: digits_ok.induct)
  case 1
  then show ?case by (simp add: decimal_def)
next
  case (2 c)
  then show ?case using decimal_elem(1) [of "[c]" c] by simp
next
  case (3 c d ds)
  have c: "isdigit c"
    using "3.prems" by (rule decimal_elem(1)) simp
  have d: "d \<noteq> CHR ''_''"
    using "3.prems" by (rule decimal_elem(4)) simp
  have rest: "decimal (d # ds)"
    using "3.prems" unfolding decimal_def by simp
  show ?case
    using c d rest "3.IH"(2) by simp
qed

lemma digits_value_snoc:
  "c \<noteq> CHR ''_'' \<Longrightarrow> digits_value (ds @ [c]) = 10 * digits_value ds + digit_val c"
  by (simp add: digits_value_def)

lemma digits_value_str_nat: "digits_value (str_nat n) = int n"
proof (induction n rule: str_nat.induct)
  case (1 n)
  show ?case
  proof (cases "n < 10")
    case True
    then have "str_nat n = [digit_char n]"
      by (subst str_nat.simps) simp
    then show ?thesis
      using True by (simp add: digits_value_def digit_char_props)
  next
    case False
    have m: "n mod 10 < 10" by simp
    have unf: "str_nat n = str_nat (n div 10) @ [digit_char (n mod 10)]"
      using False by (subst str_nat.simps) simp
    have "digits_value (str_nat n)
                 = 10 * digits_value (str_nat (n div 10)) + digit_val (digit_char (n mod 10))"
      unfolding unf using digit_char_props(5) [OF m] by (rule digits_value_snoc)
    also have "\<dots> = 10 * int (n div 10) + int (n mod 10)"
      using "1.IH" [OF False] digit_char_props(2) [OF m] by simp
    also have "\<dots> = int n"
      by (simp add: zdiv_int zmod_int)
    finally show ?thesis .
  qed
qed

lemma dropWhile_hd_id: "\<not> P (hd xs) \<Longrightarrow> dropWhile P xs = xs"
  by (cases xs) simp_all

lemma py_int_decimal:
  assumes "decimal ds" and short: "length ds \<le> max_str_digits"
  shows "py_int ds = Some (digits_value ds)"
proof -
  obtain c cs where ds: "ds = c # cs"
    using assms by (cases ds) (simp_all add: decimal_def)
  have all: "\<forall>x \<in> set ds. \<not> int_space x \<and> x \<noteq> CHR ''+'' \<and> x \<noteq> CHR ''-''"
    using decimal_elem [OF assms(1)] by blast
  then have "\<not> int_space c"
    unfolding ds by simp
  then have a: "dropWhile int_space ds = ds"
    unfolding ds by simp
  have "last ds \<in> set ds"
    unfolding ds by (rule last_in_set) simp
  then have "\<not> int_space (last ds)"
    using all by blast
  then have "\<not> int_space (hd (rev ds))"
    by (simp add: hd_rev)
  then have "dropWhile int_space (rev ds) = rev ds"
    by (rule dropWhile_hd_id)
  then have "rev (dropWhile int_space (rev (dropWhile int_space ds))) = ds"
    unfolding a by simp
  then have b: "rev (dropWhile int_space (rev (dropWhile int_space ds))) = c # cs"
    unfolding ds .
  have sg: "c \<noteq> CHR ''+''" "c \<noteq> CHR ''-''"
    using all unfolding ds by simp_all
  have "digit_count ds \<le> length ds"
    unfolding digit_count_def by (rule length_filter_le)
  then have cnt: "digit_count ds \<le> max_str_digits"
    using short by (rule order_trans)
  have "py_int ds = unsigned_int (c # cs)"
    unfolding py_int_def b using sg by simp
  then have "py_int ds = unsigned_int ds"
    unfolding ds .
  then show ?thesis
    using decimal_digits_ok [OF assms(1)] cnt by (simp add: unsigned_int_def)
qed

lemma length_str_nat: "0 < k \<Longrightarrow> n < 10 ^ k \<Longrightarrow> length (str_nat n) \<le> k"
proof (induction n arbitrary: k rule: str_nat.induct)
  case (1 n)
  show ?case
  proof (cases "n < 10")
    case True
    then have "str_nat n = [digit_char n]"
      by (subst str_nat.simps) simp
    then show ?thesis
      using "1.prems"(1) by simp
  next
    case False
    have unf: "str_nat n = str_nat (n div 10) @ [digit_char (n mod 10)]"
      using False by (subst str_nat.simps) simp
    obtain j where k: "k = Suc j"
      using "1.prems"(1) by (cases k) simp_all
    have "j \<noteq> 0"
      using False "1.prems"(2) unfolding k by (cases j) simp_all
    then have j: "0 < j" by simp
    have "n < 10 * 10 ^ j"
      using "1.prems"(2) unfolding k by simp
    then have "n div 10 < 10 ^ j"
      by (simp add: less_mult_imp_div_less mult.commute)
    then have "length (str_nat (n div 10)) \<le> j"
      using "1.IH" [OF False j] by simp
    then show ?thesis
      unfolding unf k by simp
  qed
qed

lemma py_int_str_nat:
  assumes "n < 10 ^ max_str_digits"
  shows "py_int (str_nat n) = Some (int n)"
proof -
  have "0 < max_str_digits"
    by (simp add: max_str_digits_def)
  then have "length (str_nat n) \<le> max_str_digits"
    using assms by (rule length_str_nat)
  then have "py_int (str_nat n) = Some (digits_value (str_nat n))"
    using decimal_str_nat by (intro py_int_decimal)
  then show ?thesis
    by (simp only: digits_value_str_nat)
qed

lemma str_nat_word: "str_nat n \<noteq> []" "\<forall>c \<in> set (str_nat n). \<not> isspace c"
proof -
  show "str_nat n \<noteq> []"
    using decimal_str_nat [of n] by (simp add: decimal_def)
  show "\<forall>c \<in> set (str_nat n). \<not> isspace c"
    using decimal_elem(2) [OF decimal_str_nat] by blast
qed

lemma split_ws_space_prefix:
  assumes "\<forall>c \<in> set ws. isspace c"
  shows "split_ws (ws @ s) = split_ws s"
proof -
  have "dropWhile isspace (ws @ s) = dropWhile isspace s"
    using assms by (simp add: dropWhile_append2)
  then have "split_ws (dropWhile isspace (ws @ s)) = split_ws (dropWhile isspace s)"
    by simp
  then show ?thesis
    by (simp only: split_ws_lstrip)
qed

lemma split_ws_join:
  assumes "\<forall>w \<in> set ws. w \<noteq> [] \<and> (\<forall>c \<in> set w. \<not> isspace c)"
  shows "split_ws (str_join '' '' ws) = ws"
  using assms
proof (induction "'' ''" ws rule: str_join.induct)
  case 1
  then show ?case by simp
next
  case (2 x)
  then have ne: "x \<noteq> []" and ns: "\<forall>c \<in> set x. \<not> isspace c"
    by simp_all
  have a: "dropWhile isspace x = x"
    using ne ns by (cases x) simp_all
  have tk: "takeWhile (\<lambda>c. \<not> isspace c) x = x" and dr: "dropWhile (\<lambda>c. \<not> isspace c) x = []"
    using ns by simp_all
  have "split_ws x = takeWhile (\<lambda>c. \<not> isspace c) x # split_ws (dropWhile (\<lambda>c. \<not> isspace c) x)"
    using split_ws_word [of x] ne unfolding a by simp
  then show ?case
    unfolding tk dr by simp
next
  case (3 x y ys)
  then have ne: "x \<noteq> []" and ns: "\<forall>c \<in> set x. \<not> isspace c"
    by simp_all
  let ?r = "'' '' @ str_join '' '' (y # ys)"
  have sp: "isspace (hd ?r)"
    by (simp add: isspace_def)
  have a: "dropWhile isspace (x @ ?r) = x @ ?r"
    using ne ns by (cases x) simp_all
  have t: "takeWhile (\<lambda>c. \<not> isspace c) (x @ ?r) = x"
    and d: "dropWhile (\<lambda>c. \<not> isspace c) (x @ ?r) = ?r"
    using ns sp by (intro span_append; simp)+
  have "x @ ?r \<noteq> []"
    using ne by simp
  then have "split_ws (x @ ?r) = x # split_ws ?r"
    using split_ws_word [of "x @ ?r"] unfolding a t d by simp
  also have "split_ws ?r = split_ws (str_join '' '' (y # ys))"
    by (rule split_ws_space_prefix) (simp add: isspace_def)
  also have "\<dots> = y # ys"
    using "3.hyps" "3.prems" by simp
  finally show ?case by simp
qed

lemma split_ws_numbers: "split_ws (str_join '' '' (map str_nat Q)) = map str_nat Q"
  by (rule split_ws_join) (auto simp: str_nat_word)

subsection \<open>The digit limit, newline translation and long numerals\<close>

lemma filter_dropWhile_other:
  assumes "\<And>x. P x \<Longrightarrow> \<not> Q x"
  shows "filter Q (dropWhile P xs) = filter Q xs"
  using assms by (induction xs) auto

lemma int_space_not_digit: "int_space c \<Longrightarrow> \<not> isdigit c"
proof -
  assume "int_space c"
  then have "(of_char c :: nat) \<le> 32 \<or> 133 \<le> (of_char c :: nat)"
    unfolding int_space_def Let_def by linarith
  then show "\<not> isdigit c"
    unfolding isdigit_def Let_def by linarith
qed

lemma digits_of_trimmed:
  "filter isdigit (rev (dropWhile int_space (rev (dropWhile int_space x)))) = filter isdigit x"
proof -
  have trim: "filter isdigit (dropWhile int_space ys) = filter isdigit ys" for ys
    by (rule filter_dropWhile_other) (rule int_space_not_digit)
  have "filter isdigit (rev (dropWhile int_space (rev (dropWhile int_space x))))
          = rev (filter isdigit (dropWhile int_space (rev (dropWhile int_space x))))"
    by (simp only: rev_filter)
  also have "\<dots> = rev (filter isdigit (rev (dropWhile int_space x)))"
    by (simp only: trim)
  also have "\<dots> = filter isdigit (dropWhile int_space x)"
    by (simp only: rev_filter rev_rev_ident)
  also have "\<dots> = filter isdigit x"
    by (simp only: trim)
  finally show ?thesis .
qed

lemma length_filter_mono:
  assumes "\<And>x. P x \<Longrightarrow> Q x"
  shows "length (filter P xs) \<le> length (filter Q xs)"
  using assms by (induction xs) auto

lemma digit_count_ge: "length (filter isdigit ds) \<le> digit_count ds"
  unfolding digit_count_def
proof (rule length_filter_mono)
  fix x
  assume "isdigit x"
  then show "x \<noteq> CHR ''_''"
    by (auto simp: isdigit_def)
qed

lemma unsigned_int_digit_limit:
  assumes "max_str_digits < length (filter isdigit ds)"
  shows "unsigned_int ds = None"
proof -
  have "max_str_digits < digit_count ds"
    using assms digit_count_ge [of ds] by (rule less_le_trans)
  then show ?thesis
    by (simp add: unsigned_int_def)
qed

lemma py_int_digit_limit:
  assumes "max_str_digits < length (filter isdigit x)"
  shows "py_int x = None"
proof (cases "rev (dropWhile int_space (rev (dropWhile int_space x)))")
  case Nil
  show ?thesis
    unfolding py_int_def Nil by simp
next
  case (Cons c cs)
  have d: "filter isdigit (c # cs) = filter isdigit x"
    using digits_of_trimmed [of x] unfolding Cons .
  have whole: "unsigned_int (c # cs) = None"
    using assms unfolding d [symmetric] by (rule unsigned_int_digit_limit)
  have sign: "unsigned_int cs = None" if "c = CHR ''+'' \<or> c = CHR ''-''"
  proof -
    have "\<not> isdigit c"
      using that by (auto simp: isdigit_def)
    then have "filter isdigit cs = filter isdigit x"
      using d by simp
    then show ?thesis
      using assms by (intro unsigned_int_digit_limit) simp
  qed
  show ?thesis
    unfolding py_int_def Cons using whole sign by simp
qed

lemma universal_newlines_id: "CR \<notin> set s \<Longrightarrow> universal_newlines s = s"
  by (induction s rule: universal_newlines.induct) auto

lemma readlines_concat: "concat (readlines s) = s"
proof (induction s)
  case Nil
  then show ?case by simp
next
  case (Cons c cs)
  then show ?case by (cases "readlines cs") auto
qed

lemma digits_value_zeros:
  "digits_value (replicate n (CHR ''0'') @ ds) = digits_value ds"
proof -
  have z: "digit_val (CHR ''0'') = 0"
    by (simp add: digit_val_def)
  have "foldl (\<lambda>n c. 10 * n + digit_val c) 0 (replicate n (CHR ''0'') @ ys)
          = foldl (\<lambda>n c. 10 * n + digit_val c) 0 ys" for ys
    by (induction n) (simp_all add: z)
  then show ?thesis
    by (simp add: digits_value_def)
qed

lemma decimal_zeros: "decimal (replicate n (CHR ''0'') @ ''2'')"
proof -
  have "CHR ''0'' = digit_char 0" and "CHR ''2'' = digit_char 2"
    by code_simp+
  then have "\<forall>c \<in> set (replicate n (CHR ''0'') @ ''2''). \<exists>d < 10. c = digit_char d"
    by (auto intro: exI [of _ 0] exI [of _ 2])
  then show ?thesis
    unfolding decimal_def by simp
qed

lemma zeros_word: "\<forall>c \<in> set (replicate n (CHR ''0'') @ ''2''). \<not> isspace c"
  using decimal_elem(2) [OF decimal_zeros] by blast

lemma split_ws_zeros:
  "split_ws (replicate n (CHR ''0'') @ ''2 1'') = [replicate n (CHR ''0'') @ ''2'', ''1'']"
proof -
  have "split_ws (str_join '' '' [replicate n (CHR ''0'') @ ''2'', ''1''])
          = [replicate n (CHR ''0'') @ ''2'', ''1'']"
    using zeros_word [of n] by (intro split_ws_join) (simp add: isspace_def)
  then show ?thesis by simp
qed

lemma py_int_zeros: "py_int (replicate 4300 (CHR ''0'') @ ''2'') = None"
proof (rule py_int_digit_limit)
  have "filter isdigit (replicate 4300 (CHR ''0'') @ ''2'') = replicate 4300 (CHR ''0'') @ ''2''"
    using decimal_elem(1) [OF decimal_zeros] by (simp only: filter_id_conv) blast
  then show "max_str_digits < length (filter isdigit (replicate 4300 (CHR ''0'') @ ''2''))"
    by (simp add: max_str_digits_def)
qed

subsection \<open>Numbers entered at the prompt\<close>

lemma reorder_permutation_words:
  assumes inp: "stdin c = raw # rest"
    and ne: "T \<noteq> []"
    and nums: "map py_int (split_ws raw) = map Some P"
    and perm: "mset P = mset (map int [1..<Suc (length T)])"
  shows "reorder T c = Inr (map (\<lambda>p. T ! nat (p - 1)) P, after_prompt T c)"
proof -
  let ?idx = "map (\<lambda>p. p - 1) P"
  have "length (map int [1..<Suc (length T)]) = length T"
    by (simp del: upt_Suc)
  then have "length P = length T"
    using mset_eq_length [OF perm] by (simp del: upt_Suc)
  then have "split_ws raw \<noteq> []"
    using ne nums by (metis length_0_conv length_map)
  then have nonempty: "strip raw \<noteq> []"
    using strip_Nil_split_ws by blast
  have parsed: "parse_indices (split_ws (strip raw)) = Some ?idx"
    using nums by (simp add: split_ws_strip parse_indices_Some)
  have "mset ?idx = image_mset (\<lambda>p. p - 1) (mset P)"
    by (simp only: mset_map)
  also have "\<dots> = image_mset (\<lambda>p. p - 1) (mset (map int [1..<Suc (length T)]))"
    by (simp only: perm)
  also have "\<dots> = mset (map (\<lambda>p. p - 1) (map int [1..<Suc (length T)]))"
    by (simp only: mset_map)
  also have "\<dots> = mset (map int [0..<length T])"
    by (simp only: decrement_range)
  finally have valid: "mset ?idx = mset (map int [0..<length T])" .
  then have sorted_ok: "sort ?idx = map int [0..<length T]"
    by (simp only: sort_eq_range_iff)
  have sel: "getitems T ?idx = Inr (map (\<lambda>i. T ! nat i) ?idx)"
    using permutation_in_range [OF valid] by (rule getitems_in_range)
  show ?thesis
    using nonempty parsed sorted_ok sel
    by (simp add: reorder_response [OF inp] comp_def)
qed

lemma reorder_rejects:
  assumes inp: "stdin c = raw # rest"
    and words: "split_ws raw \<noteq> []"
    and bad: "\<exists>x \<in> set (split_ws raw). py_int x = None"
  shows "reorder T c = Inr (T, py_print invalid_message (after_prompt T c))"
proof -
  have ne: "strip raw \<noteq> []"
    using words strip_Nil_split_ws by blast
  have "parse_indices (split_ws (strip raw)) = None"
    using bad by (simp add: split_ws_strip parse_indices_None)
  then show ?thesis
    using ne by (simp add: reorder_response [OF inp])
qed

lemma reorder_long_numeral:
  "reorder T \<lparr>stdin = [replicate 4300 (CHR ''0'') @ ''2 1''], stdout = out\<rparr>
     = Inr (T, py_print invalid_message
                 (after_prompt T \<lparr>stdin = [replicate 4300 (CHR ''0'') @ ''2 1''], stdout = out\<rparr>))"
proof (rule reorder_rejects)
  show "stdin \<lparr>stdin = [replicate 4300 (CHR ''0'') @ ''2 1''], stdout = out\<rparr>
          = (replicate 4300 (CHR ''0'') @ ''2 1'') # []"
    by simp
  show "split_ws (replicate 4300 (CHR ''0'') @ ''2 1'') \<noteq> []"
    by (simp only: split_ws_zeros) simp
  show "\<exists>x \<in> set (split_ws (replicate 4300 (CHR ''0'') @ ''2 1'')). py_int x = None"
    using py_int_zeros by (simp only: split_ws_zeros) simp
qed

section \<open>The parser and the formatter\<close>

text \<open>
  Claim C6. For every line, \<open>parse_directive\<close> works on the text before the first \<^verbatim>\<open>#\<close>.
  Where that text is a keyword (a run of characters that are not whitespace, possibly
  after whitespace, which is skipped), a run of whitespace and a remainder, the result is
  the list of the remainder's comma-separated pieces, each trimmed of surrounding
  whitespace, the empty ones dropped, in their order and otherwise unaltered. Where nothing
  but whitespace follows the keyword, or there is no keyword, the result is the empty list.
  In particular \<^verbatim>\<open>scanfor manual,internal # comment\<close> parses to \<open>[manual, internal]\<close>.
\<close>

theorem parse_directive_steps:
  "(takeWhile (\<lambda>c. c \<noteq> CHR ''#'') line = ws0 @ kw @ ws @ rem
      \<and> (\<forall>c \<in> set ws0. isspace c)
      \<and> kw \<noteq> [] \<and> (\<forall>c \<in> set kw. \<not> isspace c)
      \<and> ws \<noteq> [] \<and> (\<forall>c \<in> set ws. isspace c)
      \<and> rem \<noteq> [] \<and> \<not> isspace (hd rem)
    \<longrightarrow> parse_directive line
          = filter (\<lambda>t. t \<noteq> []) (map strip (split_sep (CHR '','') rem)))
   \<and> (takeWhile (\<lambda>c. c \<noteq> CHR ''#'') line = ws0 @ kw @ ws
      \<and> (\<forall>c \<in> set ws0. isspace c) \<and> (\<forall>c \<in> set kw. \<not> isspace c) \<and> (\<forall>c \<in> set ws. isspace c)
    \<longrightarrow> parse_directive line = [])
   \<and> parse_directive ''scanfor manual,internal # comment'' = [''manual'', ''internal'']"
proof (intro conjI impI)
  assume h: "takeWhile (\<lambda>c. c \<noteq> CHR ''#'') line = ws0 @ kw @ ws @ rem
      \<and> (\<forall>c \<in> set ws0. isspace c)
      \<and> kw \<noteq> [] \<and> (\<forall>c \<in> set kw. \<not> isspace c)
      \<and> ws \<noteq> [] \<and> (\<forall>c \<in> set ws. isspace c)
      \<and> rem \<noteq> [] \<and> \<not> isspace (hd rem)"
  then have "split_ws_max1 (takeWhile (\<lambda>c. c \<noteq> CHR ''#'') line) = [kw, rem]"
    by (simp add: split_ws_max1_two)
  then show "parse_directive line = filter (\<lambda>t. t \<noteq> []) (map strip (split_sep (CHR '','') rem))"
    by (simp add: parse_directive_parts)
next
  assume h: "takeWhile (\<lambda>c. c \<noteq> CHR ''#'') line = ws0 @ kw @ ws
      \<and> (\<forall>c \<in> set ws0. isspace c) \<and> (\<forall>c \<in> set kw. \<not> isspace c) \<and> (\<forall>c \<in> set ws. isspace c)"
  then have "length (split_ws_max1 (takeWhile (\<lambda>c. c \<noteq> CHR ''#'') line)) < 2"
    by (simp add: split_ws_max1_short)
  then show "parse_directive line = []"
    by (simp add: parse_directive_parts)
next
  show "parse_directive ''scanfor manual,internal # comment'' = [''manual'', ''internal'']"
    by code_simp
qed

theorem parse_directive_steps_witness:
  "parse_directive ''scanfor manual,internal  ,, # a,b''
     = filter (\<lambda>t. t \<noteq> []) (map strip (split_sep (CHR '','') ''manual,internal  ,, ''))
   \<and> parse_directive ''  showtools  # a,b'' = []"
proof -
  have a: "takeWhile (\<lambda>c. c \<noteq> CHR ''#'') ''scanfor manual,internal  ,, # a,b''
             = [] @ ''scanfor'' @ '' '' @ ''manual,internal  ,, ''
      \<and> (\<forall>c \<in> set []. isspace c)
      \<and> ''scanfor'' \<noteq> [] \<and> (\<forall>c \<in> set ''scanfor''. \<not> isspace c)
      \<and> '' '' \<noteq> [] \<and> (\<forall>c \<in> set '' ''. isspace c)
      \<and> ''manual,internal  ,, '' \<noteq> [] \<and> \<not> isspace (hd ''manual,internal  ,, '')"
    by (simp add: isspace_def)
  have b: "takeWhile (\<lambda>c. c \<noteq> CHR ''#'') ''  showtools  # a,b'' = ''  '' @ ''showtools'' @ ''  ''
      \<and> (\<forall>c \<in> set ''  ''. isspace c) \<and> (\<forall>c \<in> set ''showtools''. \<not> isspace c)
      \<and> (\<forall>c \<in> set ''  ''. isspace c)"
    by (simp add: isspace_def)
  show ?thesis
    using parse_directive_steps [of "''scanfor manual,internal  ,, # a,b''" "[]" "''scanfor''"
                                    "'' ''" "''manual,internal  ,, ''"] a
          parse_directive_steps [of "''  showtools  # a,b''" "''  ''" "''showtools''" "''  ''"] b
    by blast
qed

text \<open>
  Claim C7. Round trip: for every line and every directive name (\<^verbatim>\<open>scanfor\<close> or
  \<^verbatim>\<open>showtools\<close> in any letter case), formatting the tokens parsed from the line gives a
  line that parses back to the same tokens in the same order: \<open>parse_directive\<close> is a left
  inverse of \<open>format_directive name\<close> on every token list that \<open>parse_directive\<close> produces.
\<close>

theorem parse_format_roundtrip:
  assumes "directive_name name"
  shows "parse_directive (format_directive name (parse_directive line)) = parse_directive line"
proof (rule parse_format)
  show "name \<noteq> []"
    using assms by (rule directive_name_chars(1))
  show "\<forall>c \<in> set name. \<not> isspace c \<and> c \<noteq> CHR ''#''"
    using assms by (rule directive_name_chars(2))
  show "\<forall>t \<in> set (parse_directive line). t \<noteq> [] \<and> \<not> isspace (hd t) \<and> \<not> isspace (last t)
            \<and> CHR '','' \<notin> set t \<and> CHR ''#'' \<notin> set t"
    using parse_directive_tokens by blast
qed

theorem parse_format_roundtrip_witness:
  "directive_name ''ScanFor''
   \<and> parse_directive (format_directive ''ScanFor'' (parse_directive ''ScanFor  manual , internal,, # a,b''))
       = parse_directive ''ScanFor  manual , internal,, # a,b''"
proof -
  have d: "directive_name ''ScanFor''" by code_simp
  show ?thesis
    using parse_format_roundtrip [OF d, of "''ScanFor  manual , internal,, # a,b''"] d by simp
qed

section \<open>The interactive reorderer\<close>

text \<open>
  Claim C8. For every token sequence \<open>T\<close>, when the line the user enters is empty after
  trimming surrounding whitespace, \<open>reorder\<close> returns \<open>T\<close> itself, in the same order. The
  console is left as it is after the listing and the prompt: nothing more is printed.
\<close>

theorem reorder_empty_response:
  assumes "stdin c = raw # rest" and "strip raw = []"
  shows "reorder T c = Inr (T, after_prompt T c)"
  using assms(2) by (simp add: reorder_response [OF assms(1)])

theorem reorder_empty_response_witness:
  "stdin \<lparr>stdin = [''  ''], stdout = []\<rparr> = [''  ''] \<and> strip ''  '' = []
   \<and> reorder [''a'', ''b''] \<lparr>stdin = [''  ''], stdout = []\<rparr>
       = Inr ([''a'', ''b''], after_prompt [''a'', ''b''] \<lparr>stdin = [''  ''], stdout = []\<rparr>)"
proof -
  have s: "strip ''  '' = []" by code_simp
  have i: "stdin \<lparr>stdin = [''  ''], stdout = []\<rparr> = ''  '' # []" by simp
  show ?thesis
    using reorder_empty_response [OF i s, of "[''a'', ''b'']"] s by simp
qed

text \<open>
  Claim C5. For every token sequence \<open>T\<close> and every line the user may enter, \<open>reorder\<close>
  returns a sequence of the same length and with the same multiset of tokens as \<open>T\<close>: it
  returns, and what it returns is a permutation of \<open>T\<close>.
\<close>

theorem reorder_preserves_tokens:
  assumes "stdin c = raw # rest"
  shows "\<exists>T' c'. reorder T c = Inr (T', c') \<and> length T' = length T \<and> mset T' = mset T"
  using reorder_returns [OF assms, of T] by blast

theorem reorder_preserves_tokens_witness:
  "stdin \<lparr>stdin = [''2 1''], stdout = []\<rparr> = [''2 1'']
   \<and> (\<exists>T' c'. reorder [''a'', ''b''] \<lparr>stdin = [''2 1''], stdout = []\<rparr> = Inr (T', c')
         \<and> length T' = length [''a'', ''b''] \<and> mset T' = mset [''a'', ''b''])"
proof -
  have i: "stdin \<lparr>stdin = [''2 1''], stdout = []\<rparr> = ''2 1'' # []" by simp
  show ?thesis
    using reorder_preserves_tokens [OF i, of "[''a'', ''b'']"] by simp
qed

text \<open>
  Claim C1, as amended. Let \<open>T\<close> be a token sequence of length \<open>N \<ge> 1\<close> and let the user enter
  a line whose whitespace-separated words \<^verbatim>\<open>int\<close> accepts, as integers \<open>P\<close> that form a
  permutation of \<open>1..N\<close>. Then \<open>reorder\<close> returns \<open>[T[p-1] for p in P]\<close>: position \<open>i\<close> of the
  result holds the token at the zero-based index obtained by decrementing the \<open>i\<close>-th
  number entered. The second part is the case of the numbers \<open>Q\<close> written in decimal without
  leading zeros, one space between them; they are accepted as long as they have no more
  digits than the limit, which holds for the positions of every list that a machine can
  hold. What \<^verbatim>\<open>int\<close> accepts matters: a numeral of more than 4300 digits is refused
  whatever its value, so that the response made of 4300 zeros followed by \<^verbatim>\<open>2\<close>, a space
  and \<^verbatim>\<open>1\<close>, which writes the permutation 2, 1, leaves \<open>[a, b]\<close> as it is, with the
  invalid-input message, as the evaluation after the witness shows.
\<close>

theorem reorder_permutation:
  "(stdin c = raw # rest \<and> T \<noteq> []
      \<and> map py_int (split_ws raw) = map Some P
      \<and> mset P = mset (map int [1..<Suc (length T)])
    \<longrightarrow> reorder T c = Inr (map (\<lambda>p. T ! nat (p - 1)) P, after_prompt T c))
   \<and> (stdin c = str_join '' '' (map str_nat Q) # rest \<and> T \<noteq> []
      \<and> length T < 10 ^ max_str_digits
      \<and> mset Q = mset [1..<Suc (length T)]
    \<longrightarrow> reorder T c = Inr (map (\<lambda>q. T ! (q - 1)) Q, after_prompt T c))"
proof (intro conjI impI)
  assume h: "stdin c = raw # rest \<and> T \<noteq> []
      \<and> map py_int (split_ws raw) = map Some P
      \<and> mset P = mset (map int [1..<Suc (length T)])"
  have h1: "stdin c = raw # rest" and h2: "T \<noteq> []"
    and h3: "map py_int (split_ws raw) = map Some P"
    and h4: "mset P = mset (map int [1..<Suc (length T)])"
    using h by blast+
  show "reorder T c = Inr (map (\<lambda>p. T ! nat (p - 1)) P, after_prompt T c)"
    using h1 h2 h3 h4 by (rule reorder_permutation_words)
next
  assume h: "stdin c = str_join '' '' (map str_nat Q) # rest \<and> T \<noteq> []
      \<and> length T < 10 ^ max_str_digits
      \<and> mset Q = mset [1..<Suc (length T)]"
  have h1: "stdin c = str_join '' '' (map str_nat Q) # rest" and h2: "T \<noteq> []"
    and h3: "mset Q = mset [1..<Suc (length T)]" and small: "length T < 10 ^ max_str_digits"
    using h by blast+
  have "set Q = set [1..<Suc (length T)]"
    using h3 by (rule mset_eq_setD)
  then have "\<forall>q \<in> set Q. q < 10 ^ max_str_digits"
    using small by auto
  then have "\<forall>q \<in> set Q. py_int (str_nat q) = Some (int q)"
    using py_int_str_nat by blast
  then have "map py_int (map str_nat Q) = map Some (map int Q)"
    by simp
  then have words: "map py_int (split_ws (str_join '' '' (map str_nat Q))) = map Some (map int Q)"
    by (simp only: split_ws_numbers)
  have "mset (map int Q) = image_mset int (mset Q)"
    by (simp only: mset_map)
  also have "\<dots> = image_mset int (mset [1..<Suc (length T)])"
    by (simp only: h3)
  also have "\<dots> = mset (map int [1..<Suc (length T)])"
    by (simp only: mset_map)
  finally have perm: "mset (map int Q) = mset (map int [1..<Suc (length T)])" .
  have "reorder T c = Inr (map (\<lambda>p. T ! nat (p - 1)) (map int Q), after_prompt T c)"
    using h1 h2 words perm by (rule reorder_permutation_words)
  moreover have "map (\<lambda>p. T ! nat (p - 1)) (map int Q) = map (\<lambda>q. T ! (q - 1)) Q"
    by (simp add: comp_def nat_diff_distrib')
  ultimately show "reorder T c = Inr (map (\<lambda>q. T ! (q - 1)) Q, after_prompt T c)"
    by (simp only:)
qed

theorem reorder_permutation_witness:
  "stdin \<lparr>stdin = [''  +2 01   3 ''], stdout = []\<rparr> = [''  +2 01   3 '']
   \<and> [''a'', ''b'', ''c''] \<noteq> []
   \<and> map py_int (split_ws ''  +2 01   3 '') = map Some [2, 1, 3]
   \<and> mset [2, 1, 3] = mset (map int [1..<Suc (length [''a'', ''b'', ''c''])])
   \<and> reorder [''a'', ''b'', ''c''] \<lparr>stdin = [''  +2 01   3 ''], stdout = []\<rparr>
        = Inr ([''b'', ''a'', ''c''],
               after_prompt [''a'', ''b'', ''c''] \<lparr>stdin = [''  +2 01   3 ''], stdout = []\<rparr>)
   \<and> str_join '' '' (map str_nat [3, 1, 2]) = ''3 1 2''
   \<and> length [''a'', ''b'', ''c''] < 10 ^ max_str_digits
   \<and> mset [3, 1, 2] = mset [1..<Suc (length [''a'', ''b'', ''c''])]
   \<and> reorder [''a'', ''b'', ''c''] \<lparr>stdin = [''3 1 2''], stdout = []\<rparr>
        = Inr ([''c'', ''a'', ''b''],
               after_prompt [''a'', ''b'', ''c''] \<lparr>stdin = [''3 1 2''], stdout = []\<rparr>)"
proof -
  let ?T = "[''a'', ''b'', ''c'']"
  have i: "stdin \<lparr>stdin = [''  +2 01   3 ''], stdout = []\<rparr> = ''  +2 01   3 '' # []" by simp
  have n: "?T \<noteq> []" by simp
  have p: "map py_int (split_ws ''  +2 01   3 '') = map Some [2, 1, 3]" by code_simp
  have m: "mset [2, 1, 3] = mset (map int [1..<Suc (length ?T)])"
    by (simp add: upt_rec)
  have j: "str_join '' '' (map str_nat [3, 1, 2]) = ''3 1 2''" by code_simp
  then have i2: "stdin \<lparr>stdin = [''3 1 2''], stdout = []\<rparr>
                   = str_join '' '' (map str_nat [3, 1, 2]) # []" by simp
  have m2: "mset [3, 1, 2] = mset [1..<Suc (length ?T)]"
    by (simp add: upt_rec eval_nat_numeral)
  have "(10::nat) ^ 1 \<le> 10 ^ max_str_digits"
    by (rule power_increasing) (simp_all add: max_str_digits_def)
  then have sm: "length ?T < 10 ^ max_str_digits"
    by simp
  have a: "reorder ?T \<lparr>stdin = [''  +2 01   3 ''], stdout = []\<rparr>
             = Inr (map (\<lambda>p. ?T ! nat (p - 1)) [2, 1, 3],
                    after_prompt ?T \<lparr>stdin = [''  +2 01   3 ''], stdout = []\<rparr>)"
    using reorder_permutation [of "\<lparr>stdin = [''  +2 01   3 ''], stdout = []\<rparr>" "''  +2 01   3 ''" "[]"
                                  ?T "[2, 1, 3]"] i n p m
    by blast
  have b: "reorder ?T \<lparr>stdin = [''3 1 2''], stdout = []\<rparr>
             = Inr (map (\<lambda>q. ?T ! (q - 1)) [3, 1, 2],
                    after_prompt ?T \<lparr>stdin = [''3 1 2''], stdout = []\<rparr>)"
    using reorder_permutation [of "\<lparr>stdin = [''3 1 2''], stdout = []\<rparr>" _ "[]" ?T _ "[3, 1, 2]"] i2 n sm m2
    by blast
  have a': "map (\<lambda>p. ?T ! nat (p - 1)) [2, 1, 3] = [''b'', ''a'', ''c'']" by simp
  have b': "map (\<lambda>q. ?T ! (q - 1)) [3, 1, 2] = [''c'', ''a'', ''b'']" by simp
  have i0: "stdin \<lparr>stdin = [''  +2 01   3 ''], stdout = []\<rparr> = [''  +2 01   3 '']" by simp
  show ?thesis
    using i0 n p m j sm m2 a [unfolded a'] b [unfolded b'] by blast
qed

theorem reorder_long_numeral_counterexample:
  "split_ws (replicate 4300 (CHR ''0'') @ ''2 1'') = [replicate 4300 (CHR ''0'') @ ''2'', ''1'']
   \<and> digits_ok (replicate 4300 (CHR ''0'') @ ''2'')
   \<and> digits_value (replicate 4300 (CHR ''0'') @ ''2'') = 2
   \<and> digits_ok ''1'' \<and> digits_value ''1'' = 1
   \<and> reorder [''a'', ''b''] \<lparr>stdin = [replicate 4300 (CHR ''0'') @ ''2 1''], stdout = []\<rparr>
       = Inr ([''a'', ''b''],
              py_print invalid_message
                (after_prompt [''a'', ''b'']
                   \<lparr>stdin = [replicate 4300 (CHR ''0'') @ ''2 1''], stdout = []\<rparr>))
   \<and> [''a'', ''b''] \<noteq> [''b'', ''a'']"
proof -
  have "digits_value ''2'' = 2" and one: "digits_ok ''1''" "digits_value ''1'' = 1"
    by code_simp+
  then have "digits_value (replicate 4300 (CHR ''0'') @ ''2'') = 2"
    by (simp only: digits_value_zeros)
  moreover have "digits_ok (replicate 4300 (CHR ''0'') @ ''2'')"
    using decimal_zeros by (rule decimal_digits_ok)
  moreover have "[''a'', ''b''] \<noteq> [''b'', ''a'']"
    by simp
  ultimately show ?thesis
    using one split_ws_zeros [of 4300] reorder_long_numeral [of "[''a'', ''b'']" "[]"] by blast
qed

text \<open>
  Claim C4, as amended. Let the line the user enters be non-empty after trimming surrounding
  whitespace, and let its whitespace-separated words either contain one that \<^verbatim>\<open>int\<close>
  rejects, or be integers \<open>P\<close> whose decrements are not a permutation of
  \<open>0..len(T)-1\<close> (wrong count, duplicate, or value out of range). Then \<open>reorder\<close> returns
  \<open>T\<close> unchanged, the last thing it prints is the invalid-input message, and it does not
  raise. A word that \<^verbatim>\<open>int\<close> rejects is one that is not an optionally signed run of
  digits (with single underscores between digits at most), or one of more than 4300
  digits, as in the second case of the witness. The trimming matters: a line of whitespace only takes the silent keep-as-is path of
  claim C8, as the evaluation after the witness shows for \<open>T = [a]\<close> and a line holding one
  space, whose (empty) list of indices is not a permutation of \<open>{0}\<close>.
\<close>

theorem reorder_invalid_input:
  assumes inp: "stdin c = raw # rest"
    and ne: "strip raw \<noteq> []"
    and bad: "(\<exists>x \<in> set (split_ws raw). py_int x = None)
              \<or> (map py_int (split_ws raw) = map Some P
                  \<and> mset (map (\<lambda>p. p - 1) P) \<noteq> mset (map int [0..<length T]))"
  shows "reorder T c = Inr (T, py_print invalid_message (after_prompt T c))
         \<and> suffix (invalid_message @ [LF]) (stdout (py_print invalid_message (after_prompt T c)))"
proof -
  have printed: "suffix (invalid_message @ [LF]) (stdout (py_print invalid_message (after_prompt T c)))"
    by (simp add: py_print_def suffix_def)
  from bad have "reorder T c = Inr (T, py_print invalid_message (after_prompt T c))"
  proof
    assume "\<exists>x \<in> set (split_ws raw). py_int x = None"
    then have "parse_indices (split_ws (strip raw)) = None"
      by (simp add: split_ws_strip parse_indices_None)
    then show ?thesis
      using ne by (simp add: reorder_response [OF inp])
  next
    assume h: "map py_int (split_ws raw) = map Some P
               \<and> mset (map (\<lambda>p. p - 1) P) \<noteq> mset (map int [0..<length T])"
    then have parsed: "parse_indices (split_ws (strip raw)) = Some (map (\<lambda>p. p - 1) P)"
      by (simp add: split_ws_strip parse_indices_Some)
    have "sort (map (\<lambda>p. p - 1) P) \<noteq> map int [0..<length T]"
      using h by (simp only: sort_eq_range_iff not_False_eq_True)
    then show ?thesis
      using ne parsed by (simp add: reorder_response [OF inp])
  qed
  then show ?thesis using printed by simp
qed

theorem reorder_invalid_input_witness:
  "stdin \<lparr>stdin = [''2 2''], stdout = []\<rparr> = [''2 2'']
   \<and> strip ''2 2'' \<noteq> []
   \<and> map py_int (split_ws ''2 2'') = map Some [2, 2]
   \<and> mset (map (\<lambda>p. p - 1) [2, 2]) \<noteq> mset (map int [0..<length [''a'', ''b'']])
   \<and> reorder [''a'', ''b''] \<lparr>stdin = [''2 2''], stdout = []\<rparr>
        = Inr ([''a'', ''b''],
               py_print invalid_message (after_prompt [''a'', ''b''] \<lparr>stdin = [''2 2''], stdout = []\<rparr>))
   \<and> strip (replicate 4300 (CHR ''0'') @ ''2 1'') \<noteq> []
   \<and> py_int (replicate 4300 (CHR ''0'') @ ''2'') = None
   \<and> reorder [''a'', ''b''] \<lparr>stdin = [replicate 4300 (CHR ''0'') @ ''2 1''], stdout = []\<rparr>
        = Inr ([''a'', ''b''],
               py_print invalid_message
                 (after_prompt [''a'', ''b'']
                    \<lparr>stdin = [replicate 4300 (CHR ''0'') @ ''2 1''], stdout = []\<rparr>))"
proof -
  have i: "stdin \<lparr>stdin = [''2 2''], stdout = []\<rparr> = ''2 2'' # []" by simp
  have n: "strip ''2 2'' \<noteq> []" by code_simp
  have p: "map py_int (split_ws ''2 2'') = map Some [2, 2]" by code_simp
  have m: "mset (map (\<lambda>p. p - 1) [2, 2]) \<noteq> mset (map int [0..<length [''a'', ''b'']])"
    by (simp add: upt_rec)
  have b: "(\<exists>x \<in> set (split_ws ''2 2''). py_int x = None)
              \<or> (map py_int (split_ws ''2 2'') = map Some [2, 2]
                  \<and> mset (map (\<lambda>p. p - 1) [2, 2]) \<noteq> mset (map int [0..<length [''a'', ''b'']]))"
    using p m by blast
  let ?long = "replicate 4300 (CHR ''0'') @ ''2 1''"
  have i2: "stdin \<lparr>stdin = [?long], stdout = []\<rparr> = ?long # []" by simp
  have "split_ws ?long \<noteq> []"
    by (simp only: split_ws_zeros) simp
  then have n2: "strip ?long \<noteq> []"
    using strip_Nil_split_ws by blast
  have z: "py_int (replicate 4300 (CHR ''0'') @ ''2'') = None"
    by (rule py_int_zeros)
  then have "\<exists>x \<in> set (split_ws ?long). py_int x = None"
    by (simp only: split_ws_zeros) simp
  then have b2: "(\<exists>x \<in> set (split_ws ?long). py_int x = None)
              \<or> (map py_int (split_ws ?long) = map Some []
                  \<and> mset (map (\<lambda>p. p - 1) []) \<noteq> mset (map int [0..<length [''a'', ''b'']]))"
    by (rule disjI1)
  have first: "reorder [''a'', ''b''] \<lparr>stdin = [''2 2''], stdout = []\<rparr>
        = Inr ([''a'', ''b''],
               py_print invalid_message (after_prompt [''a'', ''b''] \<lparr>stdin = [''2 2''], stdout = []\<rparr>))"
    using reorder_invalid_input [OF i n b] by (rule conjunct1)
  have second: "reorder [''a'', ''b''] \<lparr>stdin = [?long], stdout = []\<rparr>
        = Inr ([''a'', ''b''],
               py_print invalid_message (after_prompt [''a'', ''b''] \<lparr>stdin = [?long], stdout = []\<rparr>))"
    using reorder_invalid_input [OF i2 n2 b2] by (rule conjunct1)
  have i': "stdin \<lparr>stdin = [''2 2''], stdout = []\<rparr> = [''2 2'']" by simp
  show ?thesis
    using i' n p m first n2 z second by blast
qed

theorem reorder_blank_response_counterexample:
  "'' '' \<noteq> []
   \<and> parse_indices (split_ws '' '') = Some []
   \<and> sort ([] :: int list) \<noteq> map int [0..<length [''a'']]
   \<and> reorder [''a''] \<lparr>stdin = ['' ''], stdout = []\<rparr>
        = Inr ([''a''], \<lparr>stdin = [], stdout = ''Current order:'' @ [LF] @ ''  1. a'' @ [LF] @ prompt\<rparr>)
   \<and> \<not> suffix (invalid_message @ [LF]) (''Current order:'' @ [LF] @ ''  1. a'' @ [LF] @ prompt)"
  by code_simp

section \<open>The file processor\<close>

text \<open>
  Claim C9. On a file whose only line is \<^verbatim>\<open>scanfor internal,hdbios,biosexternal\<close> (with its
  line end), with the user entering \<^verbatim>\<open>2 1 3\<close> at the prompt, \<open>process_file\<close> writes back
  the line \<^verbatim>\<open>scanfor hdbios,internal,biosexternal\<close> (with its line end).
\<close>

theorem process_file_scenario:
  "process_file (''scanfor internal,hdbios,biosexternal'' @ [LF]) \<lparr>stdin = [''2 1 3''], stdout = []\<rparr>
     = Inr (''scanfor hdbios,internal,biosexternal'' @ [LF],
            \<lparr>stdin = [],
             stdout = ''Current order:'' @ [LF] @ ''  1. internal'' @ [LF] @ ''  2. hdbios'' @ [LF]
                        @ ''  3. biosexternal'' @ [LF] @ prompt\<rparr>)"
  by code_simp



text \<open>
  Claim C10. Detection ignores case, but the rewritten line begins with the keyword in the
  letter case of the original line: the original line is a run of \<^verbatim>\<open>#\<close>, a run of
  whitespace, the matched text \<open>name\<close> and the rest, and the rewritten line is \<open>name\<close>
  followed by the formatted tokens; \<open>name\<close> is not brought to lower case.
\<close>

theorem keyword_case_preserved:
  assumes m: "directive_pattern_match (uncommented line) = Some name"
    and ne: "parse_directive (uncommented line) \<noteq> []"
    and inp: "stdin c = raw # rest"
  shows "\<exists>hashes ws post tail c'.
           line = hashes @ ws @ name @ post
           \<and> (\<forall>ch \<in> set hashes. ch = CHR ''#'') \<and> (\<forall>ch \<in> set ws. isspace ch)
           \<and> directive_name name
           \<and> process_line line c = Inr (name @ tail, c')"
proof -
  obtain items' c' where
    pl: "process_line line c = Inr (name @ ('' '' @ str_join '','' items' @ [LF]), c')"
    using process_line_rewritten [OF m ne inp] by (elim exE conjE)
  obtain post where u: "uncommented line = name @ post"
    using directive_pattern_match_Some(2) [OF m] by (elim exE conjE)
  obtain hashes ws where l: "line = hashes @ ws @ uncommented line"
    and h: "\<forall>ch \<in> set hashes. ch = CHR ''#''" and w: "\<forall>ch \<in> set ws. isspace ch"
    using uncommented_decomp [of line] by (elim exE conjE)
  have dn: "directive_name name"
    using m by (rule directive_pattern_match_Some(1))
  have "line = hashes @ ws @ name @ post"
    using l unfolding u .
  then show ?thesis
    using h w dn pl by blast
qed

theorem keyword_case_preserved_witness:
  "directive_pattern_match (uncommented (''ShowTools about,reboot'' @ [LF])) = Some ''ShowTools''
   \<and> parse_directive (uncommented (''ShowTools about,reboot'' @ [LF])) \<noteq> []
   \<and> stdin \<lparr>stdin = [''2 1''], stdout = []\<rparr> = [''2 1'']
   \<and> (\<exists>tail c'. process_line (''ShowTools about,reboot'' @ [LF]) \<lparr>stdin = [''2 1''], stdout = []\<rparr>
                   = Inr (''ShowTools'' @ tail, c'))"
proof -
  let ?line = "''ShowTools about,reboot'' @ [LF]"
  have m: "directive_pattern_match (uncommented ?line) = Some ''ShowTools''" by code_simp
  have ne: "parse_directive (uncommented ?line) \<noteq> []" by code_simp
  have i: "stdin \<lparr>stdin = [''2 1''], stdout = []\<rparr> = ''2 1'' # []" by simp
  show ?thesis
    using keyword_case_preserved [OF m ne i] m ne by auto
qed

text \<open>
  Claim C3, as amended. A line is detected as a directive exactly when it is in the
  language of \<^verbatim>\<open>^#*\s*(scanfor|showtools)\b\<close> read case-insensitively: a run of \<^verbatim>\<open>#\<close>,
  then a run of whitespace, then \<^verbatim>\<open>scanfor\<close> or \<^verbatim>\<open>showtools\<close> in any letter case as a
  whole word. And
  when the loop over the lines completes, it yields as many lines as it was given, and
  every line that is not detected, and every detected line whose parsed token list is
  empty, is in the result at its position exactly as it was read. The text written to the
  file is the concatenation of these lines, so such a line is written as \<open>readlines\<close>
  returned it. That is the line of the file after text mode has turned every \<^verbatim>\<open>\r\n\<close> and
  every lone \<^verbatim>\<open>\r\<close> into \<^verbatim>\<open>\n\<close>: the lines read make up the translated text, and the
  translation changes nothing in a file without carriage returns, whose lines are therefore
  written byte for byte. A file with \<^verbatim>\<open>\r\n\<close> line ends is not: as the evaluation after the
  witness shows, the undetected line \<^verbatim>\<open>x=1\r\n\<close> is written back as \<^verbatim>\<open>x=1\n\<close>.
\<close>

theorem detection_and_frame:
  "(detected line \<longleftrightarrow> matches_directive_regex line)
   \<and> (process_lines lines c = Inr (out, c')
        \<longrightarrow> length out = length lines
            \<and> (\<forall>i < length lines.
                  \<not> detected (lines ! i) \<or> parse_directive (uncommented (lines ! i)) = []
                  \<longrightarrow> out ! i = lines ! i))
   \<and> (process_file content c = Inr (text, c')
        \<longrightarrow> (\<exists>written.
               text = concat written
               \<and> length written = length (readlines (universal_newlines content))
               \<and> (\<forall>i < length written.
                     \<not> detected (readlines (universal_newlines content) ! i)
                     \<or> parse_directive (uncommented (readlines (universal_newlines content) ! i)) = []
                     \<longrightarrow> written ! i = readlines (universal_newlines content) ! i)))
   \<and> concat (readlines (universal_newlines content)) = universal_newlines content
   \<and> (CR \<notin> set content \<longrightarrow> universal_newlines content = content)"
proof (intro conjI impI)
  show "detected line \<longleftrightarrow> matches_directive_regex line"
    by (rule detected_iff_regex)
next
  assume "process_lines lines c = Inr (out, c')"
  then have f: "length out = length lines
            \<and> (\<forall>i < length lines.
                  \<not> detected (lines ! i) \<or> parse_directive (uncommented (lines ! i)) = []
                  \<longrightarrow> out ! i = lines ! i)"
    by (rule process_lines_frame)
  show "length out = length lines"
    using f by (rule conjunct1)
  show "\<forall>i < length lines.
                  \<not> detected (lines ! i) \<or> parse_directive (uncommented (lines ! i)) = []
                  \<longrightarrow> out ! i = lines ! i"
    using f by (rule conjunct2)
next
  let ?lines = "readlines (universal_newlines content)"
  assume "process_file content c = Inr (text, c')"
  then obtain written where run: "process_lines ?lines c = Inr (written, c')"
    and tw: "text = concat written"
    using process_file_lines by blast
  have f: "length written = length ?lines
            \<and> (\<forall>i < length ?lines.
                  \<not> detected (?lines ! i) \<or> parse_directive (uncommented (?lines ! i)) = []
                  \<longrightarrow> written ! i = ?lines ! i)"
    using run by (rule process_lines_frame)
  then have "text = concat written
               \<and> length written = length ?lines
               \<and> (\<forall>i < length written.
                     \<not> detected (?lines ! i) \<or> parse_directive (uncommented (?lines ! i)) = []
                     \<longrightarrow> written ! i = ?lines ! i)"
    using tw by simp
  then show "\<exists>written.
               text = concat written
               \<and> length written = length ?lines
               \<and> (\<forall>i < length written.
                     \<not> detected (?lines ! i) \<or> parse_directive (uncommented (?lines ! i)) = []
                     \<longrightarrow> written ! i = ?lines ! i)"
    by (rule exI)
next
  show "concat (readlines (universal_newlines content)) = universal_newlines content"
    by (rule readlines_concat)
next
  assume "CR \<notin> set content"
  then show "universal_newlines content = content"
    by (rule universal_newlines_id)
qed

theorem detection_and_frame_witness:
  "detected ''#  ScanFor a,b''
   \<and> matches_directive_regex ''#  ScanFor a,b''
   \<and> process_lines [''# scan for nothing'' @ [LF], ''showtools '' @ [LF], ''scanfor a,b'' @ [LF]]
         \<lparr>stdin = [''2 1''], stdout = []\<rparr>
       = Inr ([''# scan for nothing'' @ [LF], ''showtools '' @ [LF], ''scanfor b,a'' @ [LF]],
              \<lparr>stdin = [],
               stdout = ''Current order:'' @ [LF] @ ''  1. a'' @ [LF] @ ''  2. b'' @ [LF] @ prompt\<rparr>)
   \<and> \<not> detected (''# scan for nothing'' @ [LF])
   \<and> detected (''showtools '' @ [LF]) \<and> parse_directive (uncommented (''showtools '' @ [LF])) = []
   \<and> [''# scan for nothing'' @ [LF], ''showtools '' @ [LF], ''scanfor b,a'' @ [LF]] ! 0
       = [''# scan for nothing'' @ [LF], ''showtools '' @ [LF], ''scanfor a,b'' @ [LF]] ! 0
   \<and> [''# scan for nothing'' @ [LF], ''showtools '' @ [LF], ''scanfor b,a'' @ [LF]] ! 1
       = [''# scan for nothing'' @ [LF], ''showtools '' @ [LF], ''scanfor a,b'' @ [LF]] ! 1
   \<and> process_file (''# scan for nothing'' @ [LF] @ ''showtools '' @ [LF] @ ''scanfor a,b'' @ [LF])
         \<lparr>stdin = [''2 1''], stdout = []\<rparr>
       = Inr (''# scan for nothing'' @ [LF] @ ''showtools '' @ [LF] @ ''scanfor b,a'' @ [LF],
              \<lparr>stdin = [],
               stdout = ''Current order:'' @ [LF] @ ''  1. a'' @ [LF] @ ''  2. b'' @ [LF] @ prompt\<rparr>)
   \<and> (\<exists>written.
         ''# scan for nothing'' @ [LF] @ ''showtools '' @ [LF] @ ''scanfor b,a'' @ [LF] = concat written
         \<and> length written
             = length (readlines (universal_newlines
                 (''# scan for nothing'' @ [LF] @ ''showtools '' @ [LF] @ ''scanfor a,b'' @ [LF]))))
   \<and> CR \<notin> set (''# scan for nothing'' @ [LF] @ ''showtools '' @ [LF] @ ''scanfor a,b'' @ [LF])
   \<and> universal_newlines (''# scan for nothing'' @ [LF] @ ''showtools '' @ [LF] @ ''scanfor a,b'' @ [LF])
       = ''# scan for nothing'' @ [LF] @ ''showtools '' @ [LF] @ ''scanfor a,b'' @ [LF]"
proof -
  let ?L = "[''# scan for nothing'' @ [LF], ''showtools '' @ [LF], ''scanfor a,b'' @ [LF]]"
  let ?O = "[''# scan for nothing'' @ [LF], ''showtools '' @ [LF], ''scanfor b,a'' @ [LF]]"
  let ?F = "''# scan for nothing'' @ [LF] @ ''showtools '' @ [LF] @ ''scanfor a,b'' @ [LF]"
  let ?G = "''# scan for nothing'' @ [LF] @ ''showtools '' @ [LF] @ ''scanfor b,a'' @ [LF]"
  let ?c = "\<lparr>stdin = [''2 1''], stdout = []\<rparr>"
  let ?c' = "\<lparr>stdin = [],
               stdout = ''Current order:'' @ [LF] @ ''  1. a'' @ [LF] @ ''  2. b'' @ [LF] @ prompt\<rparr>"
  have d: "detected ''#  ScanFor a,b''" by code_simp
  have run: "process_lines ?L ?c = Inr (?O, ?c')" by code_simp
  have runf: "process_file ?F ?c = Inr (?G, ?c')" by code_simp
  have u0: "\<not> detected (''# scan for nothing'' @ [LF])" by code_simp
  have u1: "detected (''showtools '' @ [LF])" by code_simp
  have e1: "parse_directive (uncommented (''showtools '' @ [LF])) = []" by code_simp
  note t = detection_and_frame [of "''#  ScanFor a,b''" ?L ?c ?O ?c' ?F ?G]
  have r: "matches_directive_regex ''#  ScanFor a,b''"
    using t d by blast
  have frame: "\<forall>i < length ?L.
                  \<not> detected (?L ! i) \<or> parse_directive (uncommented (?L ! i)) = []
                  \<longrightarrow> ?O ! i = ?L ! i"
    using t run by blast
  have o0: "?O ! 0 = ?L ! 0"
    using frame [rule_format, of 0] u0 by simp
  have o1: "?O ! 1 = ?L ! 1"
    using frame [rule_format, of 1] e1 by simp
  have "\<exists>written.
               ?G = concat written
               \<and> length written = length (readlines (universal_newlines ?F))
               \<and> (\<forall>i < length written.
                     \<not> detected (readlines (universal_newlines ?F) ! i)
                     \<or> parse_directive (uncommented (readlines (universal_newlines ?F) ! i)) = []
                     \<longrightarrow> written ! i = readlines (universal_newlines ?F) ! i)"
    using t runf by blast
  then have wr: "\<exists>written. ?G = concat written
                     \<and> length written = length (readlines (universal_newlines ?F))"
    by blast
  have nocr: "CR \<notin> set ?F" by code_simp
  have same: "universal_newlines ?F = ?F"
    using t nocr by blast
  show ?thesis
    using d r run u0 u1 e1 o0 o1 runf wr nocr same by blast
qed

theorem crlf_line_counterexample:
  "readlines (universal_newlines (''x=1'' @ [CR, LF])) = [''x=1'' @ [LF]]
   \<and> \<not> detected (''x=1'' @ [LF]) \<and> \<not> detected (''x=1'' @ [CR, LF])
   \<and> process_file (''x=1'' @ [CR, LF]) \<lparr>stdin = [], stdout = []\<rparr>
       = Inr (''x=1'' @ [LF], \<lparr>stdin = [], stdout = []\<rparr>)
   \<and> ''x=1'' @ [LF] \<noteq> ''x=1'' @ [CR, LF]"
  by code_simp

end
